theory Spec2Isabelle
  imports Complex_Main
begin

section \<open>Text augmentation for dialogue summarisation data (augment\_text.py)\<close>

text \<open>
  The program reads a table of dialogues, draws rows at random, rewrites the dialogue of
  each drawn row with four small text transforms and appends the rewritten rows.

  Conventions of this embedding.
  \<^item> A Python \<open>str\<close> is a sequence of Unicode code points: \<open>ustr\<close> is a list of code
    points, so that \<open>length\<close> is Python's \<open>len\<close>.
  \<^item> A Python \<open>float\<close> is an IEEE 754 double.  A finite double is the real number it
    denotes; the result of an arithmetic operation on doubles is the exact result rounded
    to the nearest double, and a result beyond the largest double is an overflow
    (\<open>to_double\<close> below).  A \<open>float\<close> that comes from outside, the factor, is a finite
    double, an infinity or NaN (\<open>pyfloat\<close> below); the probabilities are finite constants.
  \<^item> The module-level generator of \<open>random\<close> is an explicit state \<open>'g\<close> that every drawing
    function takes and returns.
  \<^item> An exception is a value \<open>Inl e\<close>, returned together with the generator state reached.
\<close>

subsection \<open>Strings\<close>

type_synonym uchar = nat
type_synonym ustr = "uchar list"

definition ascii :: "string \<Rightarrow> ustr" where
  "ascii s = map of_char s"

subsection \<open>Errors and the generator\<close>

text \<open>
  \<open>EmptyRange\<close> is the \<open>ValueError\<close> that \<open>random.randrange\<close> raises on an empty range;
  \<open>ValueError msg\<close> is the one that \<open>run_augment\<close> raises itself; \<open>OverflowError\<close> is raised
  when an integer is too large for a double and when \<open>round\<close> is given an infinity.
\<close>

datatype error = ValueError ustr | EmptyRange | IndexError | KeyError ustr | OverflowError

text \<open>
  The generator of the \<open>random\<close> module is library code.  It is taken as a parameter: a
  state type \<open>'g\<close> with the three operations the program uses.
  \<^item> \<open>rng_seed s\<close> is the state after \<open>random.seed(s)\<close>;
  \<^item> \<open>rng_random g\<close> is the value of \<open>random.random()\<close> in state \<open>g\<close>, with the next state;
  \<^item> \<open>rng_randbelow n g\<close> is the value of \<open>random.randrange(n)\<close> for \<open>n > 0\<close>.
  \<open>rng_ok\<close> is what the library documents of them: \<open>random()\<close> lies in \<open>[0, 1)\<close> and
  \<open>randrange(n)\<close> lies in \<open>[0, n)\<close>.
\<close>

record 'g rng =
  rng_seed :: "int \<Rightarrow> 'g"
  rng_random :: "'g \<Rightarrow> real \<times> 'g"
  rng_randbelow :: "nat \<Rightarrow> 'g \<Rightarrow> nat \<times> 'g"

definition rng_ok :: "'g rng \<Rightarrow> bool" where
  "rng_ok R \<longleftrightarrow>
     (\<forall>g. 0 \<le> fst (rng_random R g) \<and> fst (rng_random R g) < 1) \<and>
     (\<forall>n g. 0 < n \<longrightarrow> fst (rng_randbelow R n g) < n)"

definition randrange :: "'g rng \<Rightarrow> nat \<Rightarrow> 'g \<Rightarrow> (error + nat) \<times> 'g" where
  "randrange R n g =
     (if n = 0 then (Inl EmptyRange, g)
      else case rng_randbelow R n g of (r, g') \<Rightarrow> (Inr r, g'))"

text \<open>
  \<^verbatim>\<open>
  def random_choice(seq: List[str]) -> str:
      return seq[random.randrange(len(seq))]
  \<close>
\<close>

definition random_choice :: "'g rng \<Rightarrow> 'a list \<Rightarrow> 'g \<Rightarrow> (error + 'a) \<times> 'g" where
  "random_choice R seq g =
     (case randrange R (length seq) g of
        (Inl e, g') \<Rightarrow> (Inl e, g')
      | (Inr r, g') \<Rightarrow> if r < length seq then (Inr (seq ! r), g') else (Inl IndexError, g'))"

text \<open>
  A small generator for running the model on concrete inputs: the state is a counter,
  \<open>random()\<close> returns the counter's last decimal digit as a tenth and \<open>randrange(n)\<close> returns
  the counter modulo \<open>n\<close>.  It stands in for the library's generator in examples only.
\<close>

definition counter_rng :: "nat rng" where
  "counter_rng =
     \<lparr>rng_seed = (\<lambda>s. nat \<bar>s\<bar>),
      rng_random = (\<lambda>g. (real (g mod 10) / 10, Suc g)),
      rng_randbelow = (\<lambda>n g. (g mod n, Suc g))\<rparr>"

text \<open>
  A second one that delivers the same draws from another state: the counter together with
  the number of draws made since seeding.
\<close>

definition logged_rng :: "(nat \<times> nat) rng" where
  "logged_rng =
     \<lparr>rng_seed = (\<lambda>s. (nat \<bar>s\<bar>, 0)),
      rng_random = (\<lambda>(c, k). (real (c mod 10) / 10, (Suc c, Suc k))),
      rng_randbelow = (\<lambda>n (c, k). (c mod n, (Suc c, Suc k)))\<rparr>"

subsection \<open>Character classes and regular expressions\<close>

text \<open>
  The Unicode character database is library data.  It is taken as a parameter: the
  predicates \<open>str.isalpha\<close>, \<open>str.isdecimal\<close>, \<open>str.isdigit\<close>, \<open>str.isnumeric\<close> and
  \<open>str.isspace\<close> on code points.  For a \<open>str\<close> pattern, \<open>\d\<close> is \<open>isdecimal\<close>, \<open>\s\<close> is
  \<open>isspace\<close>, and \<open>\w\<close> is \<open>isalnum\<close> or the underscore, where \<open>isalnum\<close> is the disjunction
  of the first four.
\<close>

record ucd =
  uc_alpha :: "uchar \<Rightarrow> bool"
  uc_decimal :: "uchar \<Rightarrow> bool"
  uc_digit :: "uchar \<Rightarrow> bool"
  uc_numeric :: "uchar \<Rightarrow> bool"
  uc_space :: "uchar \<Rightarrow> bool"

definition uc_alnum :: "ucd \<Rightarrow> uchar \<Rightarrow> bool" where
  "uc_alnum U c \<longleftrightarrow> uc_alpha U c \<or> uc_decimal U c \<or> uc_digit U c \<or> uc_numeric U c"

definition is_word :: "ucd \<Rightarrow> uchar \<Rightarrow> bool" where
  "is_word U c \<longleftrightarrow> uc_alnum U c \<or> c = 95"

text \<open>
  A fragment of the database for running the model on concrete inputs: the code points
  below 128 and the Hangul syllables (U+AC00 to U+D7A3) are classified as Unicode
  classifies them; it is meant for text over these code points only.
\<close>

definition ucd_sample :: ucd where
  "ucd_sample =
     \<lparr>uc_alpha = (\<lambda>c. (65 \<le> c \<and> c \<le> 90) \<or> (97 \<le> c \<and> c \<le> 122) \<or> (44032 \<le> c \<and> c \<le> 55203)),
      uc_decimal = (\<lambda>c. 48 \<le> c \<and> c \<le> 57),
      uc_digit = (\<lambda>c. 48 \<le> c \<and> c \<le> 57),
      uc_numeric = (\<lambda>c. 48 \<le> c \<and> c \<le> 57),
      uc_space = (\<lambda>c. (9 \<le> c \<and> c \<le> 13) \<or> (28 \<le> c \<and> c \<le> 32))\<rparr>"

text \<open>
  The patterns of the program use: literal text, a character set, a greedy \<open>+\<close> or \<open>*\<close> on
  a character set, a greedy optional group, concatenation, a negative lookbehind and a
  negative lookahead on a character set, and \<open>\b\<close>.
\<close>

datatype atom = Chr uchar | ClsD | ClsW | ClsS

fun atom_has :: "ucd \<Rightarrow> atom \<Rightarrow> uchar \<Rightarrow> bool" where
  "atom_has U (Chr a) c = (c = a)"
| "atom_has U ClsD c = uc_decimal U c"
| "atom_has U ClsW c = is_word U c"
| "atom_has U ClsS c = uc_space U c"

definition in_class :: "ucd \<Rightarrow> atom list \<Rightarrow> uchar \<Rightarrow> bool" where
  "in_class U cs c = list_ex (\<lambda>a. atom_has U a c) cs"

datatype regex =
    RLit ustr
  | RIn "atom list"
  | RPlus "atom list"
  | RStar "atom list"
  | ROpt regex
  | RCat regex regex
  | RNotBehind "atom list"
  | RNotAhead "atom list"
  | RWordB

text \<open>
  A backtracking matcher tries the alternatives of a pattern in a fixed order and takes
  the first that lets the rest of the pattern match.  \<open>ends U r text i\<close> lists, in that
  order, the positions where a match of \<open>r\<close> that starts at position \<open>i\<close> of \<open>text\<close> can
  end: a greedy repetition offers its longest run first, an optional group offers the
  group before the empty match, a lookaround offers its own position or nothing.
\<close>

primrec run_ends :: "nat \<Rightarrow> nat \<Rightarrow> nat list" where
  "run_ends i 0 = []"
| "run_ends i (Suc k) = (i + Suc k) # run_ends i k"

definition run_len :: "ucd \<Rightarrow> atom list \<Rightarrow> ustr \<Rightarrow> nat \<Rightarrow> nat" where
  "run_len U cs text i = length (takeWhile (in_class U cs) (drop i text))"

definition word_before :: "ucd \<Rightarrow> ustr \<Rightarrow> nat \<Rightarrow> bool" where
  "word_before U text i \<longleftrightarrow> 0 < i \<and> i \<le> length text \<and> is_word U (text ! (i - 1))"

definition word_at :: "ucd \<Rightarrow> ustr \<Rightarrow> nat \<Rightarrow> bool" where
  "word_at U text i \<longleftrightarrow> i < length text \<and> is_word U (text ! i)"

fun ends :: "ucd \<Rightarrow> regex \<Rightarrow> ustr \<Rightarrow> nat \<Rightarrow> nat list" where
  "ends U (RLit s) text i =
     (if take (length s) (drop i text) = s then [i + length s] else [])"
| "ends U (RIn cs) text i =
     (if i < length text \<and> in_class U cs (text ! i) then [Suc i] else [])"
| "ends U (RPlus cs) text i = run_ends i (run_len U cs text i)"
| "ends U (RStar cs) text i = run_ends i (run_len U cs text i) @ [i]"
| "ends U (ROpt r) text i = ends U r text i @ [i]"
| "ends U (RCat r1 r2) text i = concat (map (ends U r2 text) (ends U r1 text i))"
| "ends U (RNotBehind cs) text i =
     (if 0 < i \<and> i \<le> length text \<and> in_class U cs (text ! (i - 1)) then [] else [i])"
| "ends U (RNotAhead cs) text i =
     (if i < length text \<and> in_class U cs (text ! i) then [] else [i])"
| "ends U RWordB text i = (if word_before U text i \<noteq> word_at U text i then [i] else [])"

definition match_at :: "ucd \<Rightarrow> regex \<Rightarrow> ustr \<Rightarrow> nat \<Rightarrow> nat option" where
  "match_at U r text i = (case ends U r text i of [] \<Rightarrow> None | e # _ \<Rightarrow> Some e)"

text \<open>
  \<open>pattern.sub(repl, text)\<close> with a function \<open>repl\<close>, which here draws from the generator:
  scan from the left; where the pattern matches, call \<open>repl\<close> on the matched text and go on
  behind the match; elsewhere copy one character.  (An empty match is replaced and the
  scan moves one character on; no pattern of this program matches the empty string.)
\<close>

function re_sub_from ::
  "ucd \<Rightarrow> regex \<Rightarrow> (ustr \<Rightarrow> 'g \<Rightarrow> ustr \<times> 'g) \<Rightarrow> ustr \<Rightarrow> nat \<Rightarrow> 'g \<Rightarrow> ustr \<times> 'g" where
  "re_sub_from U r repl text i g =
     (if length text < i then ([], g)
      else case match_at U r text i of
        None \<Rightarrow>
          if i < length text
          then (case re_sub_from U r repl text (Suc i) g of (rest, g') \<Rightarrow> (text ! i # rest, g'))
          else ([], g)
      | Some e \<Rightarrow>
          (case repl (take (e - i) (drop i text)) g of (s, g1) \<Rightarrow>
             if i < e
             then (case re_sub_from U r repl text e g1 of (rest, g2) \<Rightarrow> (s @ rest, g2))
             else if i < length text
             then (case re_sub_from U r repl text (Suc i) g1 of
                     (rest, g2) \<Rightarrow> (s @ text ! i # rest, g2))
             else (s, g1)))"
  by pat_completeness auto
termination
  by (relation "measure (\<lambda>(U, r, repl, text, i, g). Suc (length text) - i)") auto

declare re_sub_from.simps [simp del]

definition re_sub :: "ucd \<Rightarrow> regex \<Rightarrow> (ustr \<Rightarrow> 'g \<Rightarrow> ustr \<times> 'g) \<Rightarrow> ustr \<Rightarrow> 'g \<Rightarrow> ustr \<times> 'g" where
  "re_sub U r repl text g = re_sub_from U r repl text 0 g"

text \<open>\<open>re.sub(pattern, s, text)\<close> with a replacement string \<open>s\<close> that has no escapes.\<close>

definition re_sub_str :: "ucd \<Rightarrow> regex \<Rightarrow> ustr \<Rightarrow> ustr \<Rightarrow> ustr" where
  "re_sub_str U r s text = fst (re_sub U r (\<lambda>m g. (s, g)) text ())"

text \<open>The spans \<open>(start, end)\<close> that the same scan finds: \<open>pattern.finditer(text)\<close>.\<close>

function finditer_from :: "ucd \<Rightarrow> regex \<Rightarrow> ustr \<Rightarrow> nat \<Rightarrow> (nat \<times> nat) list" where
  "finditer_from U r text i =
     (if length text < i then []
      else case match_at U r text i of
        None \<Rightarrow> if i < length text then finditer_from U r text (Suc i) else []
      | Some e \<Rightarrow>
          (i, e) #
          (if i < e then finditer_from U r text e
           else if i < length text then finditer_from U r text (Suc i)
           else []))"
  by pat_completeness auto
termination
  by (relation "measure (\<lambda>(U, r, text, i). Suc (length text) - i)") auto

declare finditer_from.simps [simp del]

definition finditer :: "ucd \<Rightarrow> regex \<Rightarrow> ustr \<Rightarrow> (nat \<times> nat) list" where
  "finditer U r text = finditer_from U r text 0"

subsection \<open>The lexicon and the filler list\<close>

text \<open>
  \<open>PHRASE_SYNONYMS\<close> is a dictionary literal; its keys are distinct, and a dictionary keeps
  its keys in the order written.  The Korean phrases are written as their code points,
  in the order of the source.
\<close>

definition PHRASE_SYNONYMS :: "(ustr \<times> ustr list) list" where
  "PHRASE_SYNONYMS =
     [
      ([50504, 45397, 54616, 49464, 50836],
        [[50504, 45397, 54616, 49901, 45768, 44620],
         [50504, 45397],
         [48152, 44049, 49845, 45768, 45796]]),
      ([50504, 45397],
        [[50504, 45397, 54616, 49464, 50836],
         [50504, 45397, 54616, 49901, 45768, 44620]]),
      ([44048, 49324, 54633, 45768, 45796],
        [[44256, 47577, 49845, 45768, 45796],
         [51221, 47568, 32, 44048, 49324, 54633, 45768, 45796],
         [44048, 49324, 54644, 50836]]),
      ([44256, 47577, 49845, 45768, 45796],
        [[44048, 49324, 54633, 45768, 45796],
         [44048, 49324, 54644, 50836]]),
      ([48120, 50504],
        [[51396, 49569],
         [48120, 50504, 54644, 50836],
         [48120, 50504, 54633, 45768, 45796]]),
      ([51396, 49569],
        [[51396, 49569, 54633, 45768, 45796],
         [51221, 47568, 32, 51396, 49569, 54633, 45768, 45796],
         [48120, 50504, 54633, 45768, 45796]]),
      ([51032, 49324, 32, 49440, 49373, 45784],
        [[51032, 49324, 45784],
         [49440, 49373, 45784]]),
      ([51032, 49324, 45784],
        [[51032, 49324, 32, 49440, 49373, 45784],
         [49440, 49373, 45784]]),
      ([48337, 50896],
        [[51032, 50896],
         [48337, 50896]]),
      ([44160, 51652],
        [[44148, 44053, 44160, 51652],
         [44160, 49324]]),
      ([48177, 49888],
        [[50696, 48169, 51217, 51333],
         [51217, 51333]]),
      ([44536, 47088, 45936],
        [[44540, 45936],
         [54616, 51648, 47564]]),
      ([54616, 51648, 47564],
        [[44536, 47088, 45936],
         [44540, 45936]]),
      ([51221, 47568],
        [[51652, 51676],
         [50500, 51452]])
     ]"

definition FILLERS :: "ustr list" where
  "FILLERS = [[51020], [50612], [50500], [50640], [51020, 46, 46, 46], [51004, 51020], [55136]]"

subsection \<open>Phrase replacement\<close>

text \<open>\<open>key in out\<close> on strings: \<open>key\<close> occurs in \<open>out\<close> as a substring.\<close>

fun contains :: "ustr \<Rightarrow> ustr \<Rightarrow> bool" where
  "contains [] key = (key = [])"
| "contains (c # cs) key = (take (length key) (c # cs) = key \<or> contains cs key)"

text \<open>\<open>out.replace(key, cand, 1)\<close>: the leftmost occurrence of \<open>key\<close> is replaced, if any.\<close>

fun replace_first :: "ustr \<Rightarrow> ustr \<Rightarrow> ustr \<Rightarrow> ustr" where
  "replace_first [] key cand = (if key = [] then cand else [])"
| "replace_first (c # cs) key cand =
     (if take (length key) (c # cs) = key then cand @ drop (length key) (c # cs)
      else c # replace_first cs key cand)"

text \<open>
  \<open>sorted(PHRASE_SYNONYMS.keys(), key=len, reverse=True)\<close>: Python's sort is stable, also
  with \<open>reverse=True\<close>, so keys of equal length keep the order of the dictionary.  This
  is a stable sort on the negated length.
\<close>

definition keys_sorted :: "ustr list" where
  "keys_sorted = sort_key (\<lambda>k. - int (length k)) (map fst PHRASE_SYNONYMS)"

text \<open>
  \<^verbatim>\<open>
  def replace_phrases(text: str, p_syn: float) -> str:
      if p_syn <= 0:
          return text
      keys_sorted = sorted(PHRASE_SYNONYMS.keys(), key=len, reverse=True)
      out = text
      for key in keys_sorted:
          if random.random() < p_syn and key in out:
              cand = random_choice(PHRASE_SYNONYMS[key])
              out = out.replace(key, cand, 1)
      return out
  \<close>
  The loop draws \<open>random.random()\<close> for every key, before it looks for the key.
\<close>

fun replace_loop ::
  "'g rng \<Rightarrow> real \<Rightarrow> ustr list \<Rightarrow> ustr \<Rightarrow> 'g \<Rightarrow> (error + ustr) \<times> 'g" where
  "replace_loop R p_syn [] out g = (Inr out, g)"
| "replace_loop R p_syn (key # keys) out g =
     (case rng_random R g of (x, g1) \<Rightarrow>
        if x < p_syn \<and> contains out key then
          (case map_of PHRASE_SYNONYMS key of
             None \<Rightarrow> (Inl (KeyError key), g1)
           | Some alts \<Rightarrow>
               (case random_choice R alts g1 of
                  (Inl e, g2) \<Rightarrow> (Inl e, g2)
                | (Inr cand, g2) \<Rightarrow> replace_loop R p_syn keys (replace_first out key cand) g2))
        else replace_loop R p_syn keys out g1)"

definition replace_phrases :: "'g rng \<Rightarrow> ustr \<Rightarrow> real \<Rightarrow> 'g \<Rightarrow> (error + ustr) \<times> 'g" where
  "replace_phrases R text p_syn g =
     (if p_syn \<le> 0 then (Inr text, g) else replace_loop R p_syn keys_sorted text g)"

subsection \<open>Number masking\<close>

text \<open>
  \<^verbatim>\<open>
  _NUM_RE = re.compile(r"(?<![#\w])\d+(?:[.,]\d+)?(?![#\w])")
  \<close>
  (\<open>#\<close> is code point 35, \<open>.\<close> is 46 and \<open>,\<close> is 44.)
\<close>

definition NUM_RE :: regex where
  "NUM_RE =
     RCat (RNotBehind [Chr 35, ClsW])
       (RCat (RPlus [ClsD])
          (RCat (ROpt (RCat (RIn [Chr 46, Chr 44]) (RPlus [ClsD])))
             (RNotAhead [Chr 35, ClsW])))"

text \<open>
  \<^verbatim>\<open>
  def mask_numbers(text: str, p: float) -> str:
      if p <= 0:
          return text
      def _repl(m: re.Match) -> str:
          return "<NUM>" if random.random() < p else m.group(0)
      return _NUM_RE.sub(_repl, text)
  \<close>
\<close>

definition mask_repl :: "'g rng \<Rightarrow> real \<Rightarrow> ustr \<Rightarrow> 'g \<Rightarrow> ustr \<times> 'g" where
  "mask_repl R p m g =
     (case rng_random R g of (x, g') \<Rightarrow> (if x < p then ascii ''<NUM>'' else m, g'))"

definition mask_numbers :: "ucd \<Rightarrow> 'g rng \<Rightarrow> ustr \<Rightarrow> real \<Rightarrow> 'g \<Rightarrow> ustr \<times> 'g" where
  "mask_numbers U R text p g =
     (if p \<le> 0 then (text, g) else re_sub U NUM_RE (mask_repl R p) text g)"

subsection \<open>Filler removal\<close>

text \<open>
  The pattern \<open>rf"\b{re.escape(f)}[,. ]*"\<close>: a word boundary, the filler as literal text,
  then any run of commas, full stops and spaces.  There is no boundary after the filler.
\<close>

definition filler_re :: "ustr \<Rightarrow> regex" where
  "filler_re f = RCat RWordB (RCat (RLit f) (RStar [Chr 44, Chr 46, Chr 32]))"

text \<open>\<open>r"\s+"\<close>\<close>

definition SPACES_RE :: regex where
  "SPACES_RE = RPlus [ClsS]"

text \<open>\<open>str.strip()\<close>: whitespace is removed at both ends.\<close>

definition strip :: "ucd \<Rightarrow> ustr \<Rightarrow> ustr" where
  "strip U s = rev (dropWhile (uc_space U) (rev (dropWhile (uc_space U) s)))"

text \<open>
  \<^verbatim>\<open>
  def drop_fillers(text: str, p: float) -> str:
      if p <= 0:
          return text
      out = text
      for f in FILLERS:
          # drop filler with probability p; match variants with/without comma/period
          if random.random() < p:
              out = re.sub(rf"\b{re.escape(f)}[,. ]*", "", out)
      return re.sub(r"\s+", " ", out).strip()
  \<close>
\<close>

fun drop_loop :: "ucd \<Rightarrow> 'g rng \<Rightarrow> real \<Rightarrow> ustr list \<Rightarrow> ustr \<Rightarrow> 'g \<Rightarrow> ustr \<times> 'g" where
  "drop_loop U R p [] out g = (out, g)"
| "drop_loop U R p (f # fs) out g =
     (case rng_random R g of (x, g1) \<Rightarrow>
        if x < p then drop_loop U R p fs (re_sub_str U (filler_re f) [] out) g1
        else drop_loop U R p fs out g1)"

definition drop_fillers :: "ucd \<Rightarrow> 'g rng \<Rightarrow> ustr \<Rightarrow> real \<Rightarrow> 'g \<Rightarrow> ustr \<times> 'g" where
  "drop_fillers U R text p g =
     (if p \<le> 0 then (text, g)
      else case drop_loop U R p FILLERS text g of
        (out, g') \<Rightarrow> (strip U (re_sub_str U SPACES_RE (ascii '' '') out), g'))"

subsection \<open>Punctuation jitter\<close>

text \<open>
  \<^verbatim>\<open>
  def punct_jitter(text: str, p: float) -> str:
      if p <= 0:
          return text
      out_chars = []
      for ch in text:
          if ch in {"?", "!"} and random.random() < p:
              out_chars.append(random_choice([ch * 2, "!?", "?!", ch]))
          elif ch == "," and random.random() < p:
              out_chars.append(random_choice([", ", ",", "; "]))
          else:
              out_chars.append(ch)
      return "".join(out_chars)
  \<close>
  (\<open>?\<close> is code point 63, \<open>!\<close> is 33, \<open>,\<close> is 44, \<open>;\<close> is 59 and the space is 32.)  \<open>and\<close>
  evaluates its right operand only when the left one holds, so a draw is made only at
  these three characters.
\<close>

fun jitter_loop ::
  "'g rng \<Rightarrow> real \<Rightarrow> ustr \<Rightarrow> ustr list \<Rightarrow> 'g \<Rightarrow> (error + ustr list) \<times> 'g" where
  "jitter_loop R p [] out_chars g = (Inr out_chars, g)"
| "jitter_loop R p (ch # rest) out_chars g =
     (if ch = 63 \<or> ch = 33 then
        (case rng_random R g of (x, g1) \<Rightarrow>
           if x < p then
             (case random_choice R [[ch, ch], [33, 63], [63, 33], [ch]] g1 of
                (Inl e, g2) \<Rightarrow> (Inl e, g2)
              | (Inr s, g2) \<Rightarrow> jitter_loop R p rest (out_chars @ [s]) g2)
           else jitter_loop R p rest (out_chars @ [[ch]]) g1)
      else if ch = 44 then
        (case rng_random R g of (x, g1) \<Rightarrow>
           if x < p then
             (case random_choice R [[44, 32], [44], [59, 32]] g1 of
                (Inl e, g2) \<Rightarrow> (Inl e, g2)
              | (Inr s, g2) \<Rightarrow> jitter_loop R p rest (out_chars @ [s]) g2)
           else jitter_loop R p rest (out_chars @ [[ch]]) g1)
      else jitter_loop R p rest (out_chars @ [[ch]]) g)"

definition punct_jitter :: "'g rng \<Rightarrow> ustr \<Rightarrow> real \<Rightarrow> 'g \<Rightarrow> (error + ustr) \<times> 'g" where
  "punct_jitter R text p g =
     (if p \<le> 0 then (Inr text, g)
      else case jitter_loop R p text [] g of
        (Inl e, g') \<Rightarrow> (Inl e, g')
      | (Inr out_chars, g') \<Rightarrow> (Inr (concat out_chars), g'))"

subsection \<open>The pipeline\<close>

record AugmentConfig =
  p_syn :: real
  p_mask_num :: real
  p_drop_filler :: real
  p_punct :: real
  seed :: int

text \<open>
  The doubles that the literals \<open>0.1\<close>, \<open>0.2\<close>, \<open>0.3\<close>, \<open>0.35\<close> and \<open>0.4\<close> denote: each is an
  integer below \<open>2^53\<close> divided by a power of two (\<open>2^55\<close>, \<open>2^54\<close>, \<open>2^54\<close>, \<open>2^53\<close>, \<open>2^53\<close>).
  The literal \<open>0.5\<close> denotes \<open>1/2\<close>.
\<close>

definition dbl_0_1 :: real where
  "dbl_0_1 = 3602879701896397 / 36028797018963968"

definition dbl_0_2 :: real where
  "dbl_0_2 = 3602879701896397 / 18014398509481984"

definition dbl_0_3 :: real where
  "dbl_0_3 = 5404319552844595 / 18014398509481984"

definition dbl_0_35 :: real where
  "dbl_0_35 = 3152519739159347 / 9007199254740992"

definition dbl_0_4 :: real where
  "dbl_0_4 = 3602879701896397 / 9007199254740992"

text \<open>
  \<open>AugmentConfig(seed=seed)\<close>: the other fields take the defaults of the dataclass, \<open>0.3\<close>,
  \<open>0.4\<close>, \<open>0.5\<close> and \<open>0.2\<close>.
\<close>

definition default_config :: "int \<Rightarrow> AugmentConfig" where
  "default_config s =
     \<lparr>p_syn = dbl_0_3, p_mask_num = dbl_0_4, p_drop_filler = 1/2, p_punct = dbl_0_2, seed = s\<rparr>"

text \<open>
  \<^verbatim>\<open>
  def augment_dialogue(text: str, cfg: AugmentConfig) -> str:
      out = text
      out = replace_phrases(out, cfg.p_syn)
      out = mask_numbers(out, cfg.p_mask_num)
      out = drop_fillers(out, cfg.p_drop_filler)
      out = punct_jitter(out, cfg.p_punct)
      return out
  \<close>
\<close>

definition augment_dialogue ::
  "ucd \<Rightarrow> 'g rng \<Rightarrow> ustr \<Rightarrow> AugmentConfig \<Rightarrow> 'g \<Rightarrow> (error + ustr) \<times> 'g" where
  "augment_dialogue U R text cfg g =
     (case replace_phrases R text (p_syn cfg) g of
        (Inl e, g1) \<Rightarrow> (Inl e, g1)
      | (Inr out1, g1) \<Rightarrow>
          (case mask_numbers U R out1 (p_mask_num cfg) g1 of (out2, g2) \<Rightarrow>
             (case drop_fillers U R out2 (p_drop_filler cfg) g2 of (out3, g3) \<Rightarrow>
                punct_jitter R out3 (p_punct cfg) g3)))"

subsection \<open>Sampling policy\<close>

text \<open>
  C's \<open>round\<close>: to the nearest integer, halfway cases away from zero.
\<close>

definition c_round :: "real \<Rightarrow> int" where
  "c_round x = (if 0 \<le> x then \<lfloor>x + 1/2\<rfloor> else \<lceil>x - 1/2\<rceil>)"

text \<open>
  Python's one-argument \<open>round\<close> on a float, as CPython computes it: take C's \<open>round\<close>, and
  in a halfway case take twice the rounding of the half instead.
\<close>

definition py_round :: "real \<Rightarrow> int" where
  "py_round x =
     (let rounded = c_round x
      in if \<bar>x - real_of_int rounded\<bar> = 1/2 then 2 * c_round (x / 2) else rounded)"

text \<open>
  Rounding a real number to the nearest double, halfway cases to the even significand
  (the rounding of IEEE 754 arithmetic).  A positive \<open>x\<close> is first scaled by a power of two:
  \<open>x = y * 2^e\<close> with \<open>2^52 \<le> y < 2^53\<close>, except that \<open>e\<close> stays within \<open>-1074\<close> (below it the
  doubles are subnormal and equally spaced) and \<open>971\<close> (the exponent of the largest
  doubles).  Then \<open>y\<close> is rounded to an integer, halfway cases to even.  A result of \<open>2^1024\<close> or
  more is no double: \<open>None\<close> stands for the overflow.
\<close>

function scale_down :: "real \<Rightarrow> int \<Rightarrow> real \<times> int" where
  "scale_down y e = (if 2 ^ 53 \<le> y \<and> e < 971 then scale_down (y / 2) (e + 1) else (y, e))"
  by pat_completeness auto
termination
  by (relation "measure (\<lambda>(y, e). nat (971 - e))") auto

function scale_up :: "real \<Rightarrow> int \<Rightarrow> real \<times> int" where
  "scale_up y e = (if y < 2 ^ 52 \<and> - 1074 < e then scale_up (2 * y) (e - 1) else (y, e))"
  by pat_completeness auto
termination
  by (relation "measure (\<lambda>(y, e). nat (e + 1074))") auto

declare scale_down.simps [simp del] scale_up.simps [simp del]

definition pow2 :: "int \<Rightarrow> real" where
  "pow2 e = (if 0 \<le> e then 2 ^ nat e else 1 / 2 ^ nat (- e))"

definition to_double_pos :: "real \<Rightarrow> real option" where
  "to_double_pos x =
     (case (if 2 ^ 53 \<le> x then scale_down x 0 else scale_up x 0) of
        (y, e) \<Rightarrow>
          (let m = py_round y
           in if e = 971 \<and> 2 ^ 53 \<le> m then None else Some (real_of_int m * pow2 e)))"

definition to_double :: "real \<Rightarrow> real option" where
  "to_double x =
     (if x = 0 then Some 0
      else if 0 < x then to_double_pos x
      else map_option uminus (to_double_pos (- x)))"

text \<open>
  A \<open>float\<close> value: a finite double \<open>Fl x\<close>, given by the real number it denotes, one of
  the two infinities, or NaN.
\<close>

datatype pyfloat = Fl real | PosInf | NegInf | NaN

text \<open>\<open>f <= 0\<close> on a float: every comparison with NaN is false.\<close>

definition float_le_0 :: "pyfloat \<Rightarrow> bool" where
  "float_le_0 f = (case f of Fl x \<Rightarrow> x \<le> 0 | PosInf \<Rightarrow> False | NegInf \<Rightarrow> True | NaN \<Rightarrow> False)"

text \<open>
  The product of a finite double \<open>a\<close> and a float: a finite product is rounded to a double,
  one that is too large is the infinity of its sign; zero times an infinity is NaN.
\<close>

definition float_mul :: "real \<Rightarrow> pyfloat \<Rightarrow> pyfloat" where
  "float_mul a f =
     (case f of
        Fl x \<Rightarrow>
          (case to_double (a * x) of
             Some y \<Rightarrow> Fl y
           | None \<Rightarrow> if 0 < a * x then PosInf else NegInf)
      | PosInf \<Rightarrow> if a = 0 then NaN else if 0 < a then PosInf else NegInf
      | NegInf \<Rightarrow> if a = 0 then NaN else if 0 < a then NegInf else PosInf
      | NaN \<Rightarrow> NaN)"

text \<open>
  \<open>n_rows * factor\<close> with an \<open>int\<close> and a \<open>float\<close>: the integer is converted to a double,
  correctly rounded, and the two floats are multiplied.  The conversion of an integer
  that is too large raises \<open>OverflowError\<close>.
\<close>

definition int_times_float :: "nat \<Rightarrow> pyfloat \<Rightarrow> error + pyfloat" where
  "int_times_float n f =
     (case to_double (real n) of
        None \<Rightarrow> Inl OverflowError
      | Some nf \<Rightarrow> Inr (float_mul nf f))"

text \<open>
  \<open>round(x)\<close> on a float: \<open>OverflowError\<close> on an infinity, \<open>ValueError\<close> on NaN.
\<close>

definition nan_msg :: ustr where
  "nan_msg = ascii ''cannot convert float NaN to integer''"

definition float_round :: "pyfloat \<Rightarrow> error + int" where
  "float_round f =
     (case f of
        Fl x \<Rightarrow> Inr (py_round x)
      | PosInf \<Rightarrow> Inl OverflowError
      | NegInf \<Rightarrow> Inl OverflowError
      | NaN \<Rightarrow> Inl (ValueError nan_msg))"

text \<open>
  \<^verbatim>\<open>
  def compute_aug_count(n_rows: int, factor: float) -> int:
      if factor <= 0:
          return 0
      return max(1, int(round(n_rows * factor)))
  \<close>
  \<open>round\<close> returns an \<open>int\<close>, which \<open>int\<close> leaves as it is.
\<close>

definition compute_aug_count :: "nat \<Rightarrow> pyfloat \<Rightarrow> error + int" where
  "compute_aug_count n_rows factor =
     (if float_le_0 factor then Inr 0
      else case int_times_float n_rows factor of
        Inl e \<Rightarrow> Inl e
      | Inr pr \<Rightarrow>
          (case float_round pr of
             Inl e \<Rightarrow> Inl e
           | Inr r \<Rightarrow> Inr (max 1 r)))"

text \<open>
  The specification's words for the rounding: \<open>r\<close> is a nearest integer of \<open>x\<close>, and in
  a tie it is the even one.
\<close>

definition round_half_even :: "real \<Rightarrow> int \<Rightarrow> bool" where
  "round_half_even x r \<longleftrightarrow>
     \<bar>x - real_of_int r\<bar> \<le> 1/2 \<and> (\<bar>x - real_of_int r\<bar> = 1/2 \<longrightarrow> even r)"

subsection \<open>Dataset assembly\<close>

text \<open>\<open>str(i)\<close> for an index \<open>i \<ge> 0\<close>: its decimal digits (\<open>0\<close> is code point 48).\<close>

fun str_nat :: "nat \<Rightarrow> ustr" where
  "str_nat n = (if n < 10 then [48 + n] else str_nat (n div 10) @ [48 + n mod 10])"

declare str_nat.simps [simp del]

text \<open>
  \<^verbatim>\<open>
  def ensure_unique_fname(fname: str, idx: int) -> str:
      return f"{fname}_aug{idx}"
  \<close>
\<close>

definition ensure_unique_fname :: "ustr \<Rightarrow> nat \<Rightarrow> ustr" where
  "ensure_unique_fname fname idx = fname @ ascii ''_aug'' @ str_nat idx"

text \<open>
  A data frame is its column names and its rows; a row gives a cell to column names, in
  the order of the columns.  Reading and writing files is outside the program: the frame
  that \<open>pd.read_csv(input_csv)\<close> returns is an argument, and the frame handed to \<open>to_csv\<close>
  is part of the result.  Cells are strings, as the module's docstring describes the four
  columns, and \<open>str\<close> of a string is the string.  \<open>frame_ok\<close> says that a frame is
  rectangular, which every frame that \<open>read_csv\<close> returns is.
\<close>

type_synonym row = "(ustr \<times> ustr) list"

record dataframe =
  columns :: "ustr list"
  rows :: "row list"

definition frame_ok :: "dataframe \<Rightarrow> bool" where
  "frame_ok df \<longleftrightarrow> list_all (\<lambda>r. map fst r = columns df) (rows df)"

text \<open>\<open>df.iloc[i]\<close> for \<open>i \<ge> 0\<close> and \<open>row[c]\<close>.\<close>

definition iloc :: "row list \<Rightarrow> nat \<Rightarrow> error + row" where
  "iloc rws i = (if i < length rws then Inr (rws ! i) else Inl IndexError)"

definition row_get :: "row \<Rightarrow> ustr \<Rightarrow> error + ustr" where
  "row_get r c = (case map_of r c of None \<Rightarrow> Inl (KeyError c) | Some v \<Rightarrow> Inr v)"

text \<open>\<open>df.head(k)\<close>: the first \<open>k\<close> rows, or all but the last \<open>-k\<close> rows when \<open>k\<close> is negative.\<close>

definition head :: "int \<Rightarrow> 'a list \<Rightarrow> 'a list" where
  "head k xs = (if 0 \<le> k then take (nat k) xs else take (length xs - nat (- k)) xs)"

text \<open>\<open>if limit is not None: df = df.head(limit)\<close>\<close>

definition apply_limit :: "int option \<Rightarrow> dataframe \<Rightarrow> dataframe" where
  "apply_limit limit df =
     (case limit of None \<Rightarrow> df | Some k \<Rightarrow> df\<lparr>rows := head k (rows df)\<rparr>)"

definition required_cols :: "ustr list" where
  "required_cols = [ascii ''fname'', ascii ''dialogue'', ascii ''summary'', ascii ''topic'']"

text \<open>\<open>f"Missing required column '{c}' in {input_csv}"\<close> (the quote is code point 39).\<close>

definition missing_msg :: "ustr \<Rightarrow> ustr \<Rightarrow> ustr" where
  "missing_msg c input_csv =
     ascii ''Missing required column '' @ [39] @ c @ [39] @ ascii '' in '' @ input_csv"

fun check_columns :: "ustr list \<Rightarrow> ustr list \<Rightarrow> ustr \<Rightarrow> error option" where
  "check_columns [] cols input_csv = None"
| "check_columns (c # cs) cols input_csv =
     (if c \<notin> set cols then Some (ValueError (missing_msg c input_csv))
      else check_columns cs cols input_csv)"

text \<open>\<open>[random.randrange(n) for _ in range(m)]\<close>\<close>

fun sample_indices :: "'g rng \<Rightarrow> nat \<Rightarrow> nat \<Rightarrow> 'g \<Rightarrow> (error + nat list) \<times> 'g" where
  "sample_indices R n 0 g = (Inr [], g)"
| "sample_indices R n (Suc k) g =
     (case randrange R n g of
        (Inl e, g1) \<Rightarrow> (Inl e, g1)
      | (Inr r, g1) \<Rightarrow>
          (case sample_indices R n k g1 of
             (Inl e, g2) \<Rightarrow> (Inl e, g2)
           | (Inr rs, g2) \<Rightarrow> (Inr (r # rs), g2)))"

text \<open>
  The loop \<open>for i, src_idx in enumerate(sample_idx)\<close>; \<open>rws\<close> is the list \<open>rows\<close> of the
  source, \<open>i\<close> the index that \<open>enumerate\<close> has reached.
\<close>

fun augment_rows ::
  "ucd \<Rightarrow> 'g rng \<Rightarrow> AugmentConfig \<Rightarrow> row list \<Rightarrow> nat \<Rightarrow> nat list \<Rightarrow> row list \<Rightarrow> 'g
   \<Rightarrow> (error + row list) \<times> 'g" where
  "augment_rows U R cfg df_rows i [] rws g = (Inr rws, g)"
| "augment_rows U R cfg df_rows i (src_idx # later) rws g =
     (case iloc df_rows src_idx of
        Inl e \<Rightarrow> (Inl e, g)
      | Inr row \<Rightarrow>
     (case row_get row (ascii ''dialogue'') of
        Inl e \<Rightarrow> (Inl e, g)
      | Inr dlg \<Rightarrow>
     (case augment_dialogue U R dlg cfg g of
        (Inl e, g1) \<Rightarrow> (Inl e, g1)
      | (Inr aug_dialogue, g1) \<Rightarrow>
     (case row_get row (ascii ''fname'') of
        Inl e \<Rightarrow> (Inl e, g1)
      | Inr fnm \<Rightarrow>
     (case row_get row (ascii ''summary'') of
        Inl e \<Rightarrow> (Inl e, g1)
      | Inr smm \<Rightarrow>
     (case row_get row (ascii ''topic'') of
        Inl e \<Rightarrow> (Inl e, g1)
      | Inr tpc \<Rightarrow>
          augment_rows U R cfg df_rows (Suc i) later
            (rws @ [[(ascii ''fname'', ensure_unique_fname fnm i),
                     (ascii ''dialogue'', aug_dialogue),
                     (ascii ''summary'', smm),
                     (ascii ''topic'', tpc)]]) g1))))))"

text \<open>
  \<open>pd.concat([df, pd.DataFrame(rows)], ignore_index=True)\<close>: the rows of \<open>df\<close>, then the new
  rows; the columns of \<open>df\<close>, then those of the new rows that \<open>df\<close> does not have.
\<close>

definition concat_frames :: "dataframe \<Rightarrow> row list \<Rightarrow> dataframe" where
  "concat_frames df new_rows =
     \<lparr>columns = columns df @ filter (\<lambda>c. c \<notin> set (columns df)) required_cols,
      rows = rows df @ new_rows\<rparr>"

text \<open>
  \<^verbatim>\<open>
  def run_augment(input_csv, output_csv, factor, seed, limit) -> Tuple[int, int]:
      random.seed(seed)
      df = pd.read_csv(input_csv)
      required_cols = ["fname", "dialogue", "summary", "topic"]
      for c in required_cols:
          if c not in df.columns:
              raise ValueError(f"Missing required column '{c}' in {input_csv}")
      if limit is not None:
          df = df.head(limit)
      cfg = AugmentConfig(seed=seed)
      n = len(df)
      m = compute_aug_count(n, factor)
      if m == 0:
          df.to_csv(output_csv, index=False)
          return (n, 0)
      sample_idx = [random.randrange(n) for _ in range(m)]
      rows = []
      for i, src_idx in enumerate(sample_idx):
          ...
      df_aug = pd.DataFrame(rows)
      df_out = pd.concat([df, df_aug], ignore_index=True)
      df_out.to_csv(output_csv, index=False)
      return (n, len(df_out))
  \<close>
  The result \<open>Inr (written, (a, b))\<close> is a run that wrote the frame \<open>written\<close> to
  \<open>output_csv\<close> and returned the pair \<open>(a, b)\<close>; a run that raises has written nothing,
  since both calls of \<open>to_csv\<close> are directly followed by \<open>return\<close>.  The second
  component is the state of the generator at the end.
\<close>

definition run_augment ::
  "ucd \<Rightarrow> 'g rng \<Rightarrow> dataframe \<Rightarrow> ustr \<Rightarrow> pyfloat \<Rightarrow> int \<Rightarrow> int option
   \<Rightarrow> (error + dataframe \<times> nat \<times> nat) \<times> 'g" where
  "run_augment U R df_in input_csv factor sd limit =
     (let g0 = rng_seed R sd in
      case check_columns required_cols (columns df_in) input_csv of
        Some e \<Rightarrow> (Inl e, g0)
      | None \<Rightarrow>
          (let df = apply_limit limit df_in;
               cfg = default_config sd;
               n = length (rows df)
           in case compute_aug_count n factor of
                Inl e \<Rightarrow> (Inl e, g0)
              | Inr m \<Rightarrow>
                  if m = 0 then (Inr (df, (n, 0)), g0)
                  else
                    (case sample_indices R n (nat m) g0 of
                       (Inl e, g1) \<Rightarrow> (Inl e, g1)
                     | (Inr sample_idx, g1) \<Rightarrow>
                         (case augment_rows U R cfg (rows df) 0 sample_idx [] g1 of
                            (Inl e, g2) \<Rightarrow> (Inl e, g2)
                          | (Inr new_rows, g2) \<Rightarrow>
                              (let df_out = concat_frames df new_rows
                               in (Inr (df_out, (n, length (rows df_out))), g2))))))"

subsection \<open>Reading results\<close>

text \<open>The frame that a run wrote, if it wrote one, and the identifiers of a frame's rows.\<close>

definition written :: "(error + dataframe \<times> nat \<times> nat) \<times> 'g \<Rightarrow> dataframe option" where
  "written res = (case fst res of Inl e \<Rightarrow> None | Inr (df, counts) \<Rightarrow> Some df)"

definition frame_ids :: "dataframe \<Rightarrow> (error + ustr) list" where
  "frame_ids df = map (\<lambda>r. row_get r (ascii ''fname'')) (rows df)"

text \<open>
  Two runs are two executions, each with a generator of its own; the two generators may
  differ in what their states hold (what the process drew before the run, say).
  \<open>rel_out S r1 r2\<close>: two results with the same value and final states related by \<open>S\<close>.
  \<open>rng_sim S R1 R2\<close>: from states related by \<open>S\<close>, \<open>random()\<close> and \<open>randrange(n)\<close>, \<open>n > 0\<close>,
  return the same value in both generators and leave states related by \<open>S\<close>; so related
  states deliver the same sequence of draws.
\<close>

definition rel_out :: "('g \<Rightarrow> 'h \<Rightarrow> bool) \<Rightarrow> 'a \<times> 'g \<Rightarrow> 'a \<times> 'h \<Rightarrow> bool" where
  "rel_out S r1 r2 \<longleftrightarrow> fst r1 = fst r2 \<and> S (snd r1) (snd r2)"

definition rng_sim :: "('g \<Rightarrow> 'h \<Rightarrow> bool) \<Rightarrow> 'g rng \<Rightarrow> 'h rng \<Rightarrow> bool" where
  "rng_sim S R1 R2 \<longleftrightarrow>
     (\<forall>g h. S g h \<longrightarrow> rel_out S (rng_random R1 g) (rng_random R2 h)) \<and>
     (\<forall>n g h. 0 < n \<and> S g h \<longrightarrow> rel_out S (rng_randbelow R1 n g) (rng_randbelow R2 n h))"

text \<open>
  The specification's words for a synthetic row: \<open>new\<close> is made from the source row \<open>src\<close>
  as the synthetic row of index \<open>i\<close> when its summary and topic are those of \<open>src\<close>, its
  identifier is derived from that of \<open>src\<close> and \<open>i\<close>, and its dialogue is a result of the
  pipeline on the dialogue of \<open>src\<close>.
\<close>

definition synthetic_row ::
  "ucd \<Rightarrow> 'g rng \<Rightarrow> AugmentConfig \<Rightarrow> row \<Rightarrow> nat \<Rightarrow> row \<Rightarrow> bool" where
  "synthetic_row U R cfg src i new \<longleftrightarrow>
     (\<exists>fnm dlg smm tpc aug g1 g2.
        row_get src (ascii ''fname'') = Inr fnm \<and>
        row_get src (ascii ''dialogue'') = Inr dlg \<and>
        row_get src (ascii ''summary'') = Inr smm \<and>
        row_get src (ascii ''topic'') = Inr tpc \<and>
        augment_dialogue U R dlg cfg g1 = (Inr aug, g2) \<and>
        new = [(ascii ''fname'', ensure_unique_fname fnm i),
               (ascii ''dialogue'', aug),
               (ascii ''summary'', smm),
               (ascii ''topic'', tpc)])"

text \<open>
  The specification's words for masking: the text with some of the given spans replaced
  by the placeholder.  \<open>mask_spans text pos spans\<close> copies \<open>text\<close> from position \<open>pos\<close> on; a
  span \<open>((i, e), True)\<close> is replaced by \<open><NUM>\<close>, a span \<open>((i, e), False)\<close> is copied.
\<close>

fun mask_spans :: "ustr \<Rightarrow> nat \<Rightarrow> ((nat \<times> nat) \<times> bool) list \<Rightarrow> ustr" where
  "mask_spans text pos [] = drop pos text"
| "mask_spans text pos (((i, e), masked) # rest) =
     take (i - pos) (drop pos text) @
     (if masked then ascii ''<NUM>'' else take (e - i) (drop i text)) @
     mask_spans text e rest"

text \<open>
  \<open>spans_chain n pos spans\<close>: the spans are non-empty, lie one after the other from \<open>pos\<close> on,
  and end within \<open>n\<close>.
\<close>

fun spans_chain :: "nat \<Rightarrow> nat \<Rightarrow> ((nat \<times> nat) \<times> bool) list \<Rightarrow> bool" where
  "spans_chain n pos [] = True"
| "spans_chain n pos (((i, e), masked) # rest) =
     (pos \<le> i \<and> i < e \<and> e \<le> n \<and> spans_chain n e rest)"

text \<open>
  The specification's words for the digits that must stay.  A digit run is a maximal
  stretch \<open>[a, b)\<close> of decimal digits of the text; it is beside a word character when the
  character directly before it or directly after it is \<open>#\<close> or a word character.  A span
  \<open>[i, e)\<close> of the text has the shape of a number when it is a stretch of digits, or two
  stretches of digits with one \<open>.\<close> or \<open>,\<close> between them.
\<close>

definition digit_run :: "ucd \<Rightarrow> ustr \<Rightarrow> nat \<Rightarrow> nat \<Rightarrow> bool" where
  "digit_run U tx a b \<longleftrightarrow>
     a < b \<and> b \<le> length tx \<and>
     (\<forall>k. a \<le> k \<and> k < b \<longrightarrow> uc_decimal U (tx ! k)) \<and>
     \<not> (0 < a \<and> uc_decimal U (tx ! (a - 1))) \<and>
     \<not> (b < length tx \<and> uc_decimal U (tx ! b))"

definition beside_word :: "ucd \<Rightarrow> ustr \<Rightarrow> nat \<Rightarrow> nat \<Rightarrow> bool" where
  "beside_word U tx a b \<longleftrightarrow>
     (0 < a \<and> in_class U [Chr 35, ClsW] (tx ! (a - 1))) \<or>
     (b < length tx \<and> in_class U [Chr 35, ClsW] (tx ! b))"

definition number_shape :: "ucd \<Rightarrow> ustr \<Rightarrow> nat \<Rightarrow> nat \<Rightarrow> bool" where
  "number_shape U tx i e \<longleftrightarrow>
     (\<exists>a. i < a \<and> a \<le> e \<and> e \<le> length tx \<and>
          (\<forall>k. i \<le> k \<and> k < a \<longrightarrow> uc_decimal U (tx ! k)) \<and>
          (a = e \<or>
           ((tx ! a = 46 \<or> tx ! a = 44) \<and> Suc a < e \<and>
            (\<forall>k. Suc a \<le> k \<and> k < e \<longrightarrow> uc_decimal U (tx ! k)))))"

text \<open>
  A text is whitespace-normal when each of its whitespace characters is a space that
  stands between two characters that are not whitespace.
\<close>

definition ws_normal :: "ucd \<Rightarrow> ustr \<Rightarrow> bool" where
  "ws_normal U text \<longleftrightarrow>
     (\<forall>j < length text. uc_space U (text ! j) \<longrightarrow>
        text ! j = 32 \<and> 0 < j \<and> Suc j < length text \<and>
        \<not> uc_space U (text ! (j - 1)) \<and> \<not> uc_space U (text ! Suc j))"

text \<open>
  A pattern progresses on a text when none of its matches there is empty, and
  \<open>filler_matches\<close> collects the matches of all filler patterns in a text.
\<close>

definition progresses :: "ucd \<Rightarrow> regex \<Rightarrow> ustr \<Rightarrow> bool" where
  "progresses U r tx \<longleftrightarrow>
     (\<forall>i e. i \<le> length tx \<and> match_at U r tx i = Some e \<longrightarrow> i < e)"

definition filler_matches :: "ucd \<Rightarrow> ustr \<Rightarrow> (nat \<times> nat) list" where
  "filler_matches U tx = concat (map (\<lambda>f. finditer U (filler_re f) tx) FILLERS)"

text \<open>The number that a string of decimal digits denotes.\<close>

definition dec_value :: "ustr \<Rightarrow> nat" where
  "dec_value ds = foldl (\<lambda>v c. 10 * v + (c - 48)) 0 ds"

subsection \<open>Example inputs\<close>

definition mk_row :: "ustr \<Rightarrow> ustr \<Rightarrow> ustr \<Rightarrow> ustr \<Rightarrow> row" where
  "mk_row f d s t =
     [(ascii ''fname'', f), (ascii ''dialogue'', d), (ascii ''summary'', s), (ascii ''topic'', t)]"

text \<open>Two rows; the identifier of the second is the first's with \<open>_aug0\<close> appended.\<close>

definition ex_frame :: dataframe where
  "ex_frame =
     \<lparr>columns = required_cols,
      rows = [mk_row (ascii ''a'') (ascii ''hi'') (ascii ''s'') (ascii ''t''),
              mk_row (ascii ''a_aug0'') (ascii ''yo'') (ascii ''s2'') (ascii ''t2'')]\<rparr>"

text \<open>Two rows with unrelated identifiers.\<close>

definition ex_frame2 :: dataframe where
  "ex_frame2 =
     \<lparr>columns = required_cols,
      rows = [mk_row (ascii ''a'') (ascii ''hi'') (ascii ''s'') (ascii ''t''),
              mk_row (ascii ''b'') (ascii ''yo'') (ascii ''s2'') (ascii ''t2'')]\<rparr>"

text \<open>A frame without the column \<open>topic\<close>.\<close>

definition ex_frame_no_topic :: dataframe where
  "ex_frame_no_topic =
     \<lparr>columns = [ascii ''fname'', ascii ''dialogue'', ascii ''summary''],
      rows = [[(ascii ''fname'', ascii ''a''), (ascii ''dialogue'', ascii ''hi''),
               (ascii ''summary'', ascii ''s'')]]\<rparr>"

text \<open>
  The text \<open>#Person1#\<close>, a Korean sentence with the number \<open>30\<close> in it, and the same with
  \<open><NUM>\<close> for the number (the test case of the specification); a dialogue of two lines
  \<open>a\<close> and \<open>b\<close>, and the two as one line; the word of two syllables that begins with the
  filler U+C74C, and its second syllable alone.  Before them, the text \<open>hi\<close>.
\<close>

definition hi_text :: ustr where
  "hi_text = [104, 105]"

definition person_text :: ustr where
  "person_text =
     [35, 80, 101, 114, 115, 111, 110, 49, 35, 32, 51228, 32, 45208, 51060, 45716, 32,
      51, 48, 32, 49332, 51077, 45768, 45796]"

definition person_masked :: ustr where
  "person_masked =
     [35, 80, 101, 114, 115, 111, 110, 49, 35, 32, 51228, 32, 45208, 51060, 45716, 32,
      60, 78, 85, 77, 62, 32, 49332, 51077, 45768, 45796]"

definition two_lines :: ustr where
  "two_lines = [97, 10, 98]"

definition one_line :: ustr where
  "one_line = [97, 32, 98]"

definition food_word :: ustr where
  "food_word = [51020, 49885]"

definition food_word_rest :: ustr where
  "food_word_rest = [49885]"

text \<open>The frames that the runs on \<open>ex_frame\<close> and \<open>ex_frame2\<close> below write.\<close>

definition ex_out :: dataframe where
  "ex_out =
     \<lparr>columns = required_cols,
      rows = [mk_row (ascii ''a'') (ascii ''hi'') (ascii ''s'') (ascii ''t''),
              mk_row (ascii ''a_aug0'') (ascii ''yo'') (ascii ''s2'') (ascii ''t2''),
              mk_row (ascii ''a_aug0'') (ascii ''hi'') (ascii ''s'') (ascii ''t'')]\<rparr>"

definition ex_out2 :: dataframe where
  "ex_out2 =
     \<lparr>columns = required_cols,
      rows = [mk_row (ascii ''a'') (ascii ''hi'') (ascii ''s'') (ascii ''t''),
              mk_row (ascii ''b'') (ascii ''yo'') (ascii ''s2'') (ascii ''t2''),
              mk_row (ascii ''a_aug0'') (ascii ''hi'') (ascii ''s'') (ascii ''t'')]\<rparr>"

section \<open>Properties\<close>

subsection \<open>Rounding and the number of synthetic rows\<close>

lemma c_round_near: "\<bar>x - real_of_int (c_round x)\<bar> \<le> 1/2"
proof (cases "0 \<le> x")
  case True
  have "real_of_int \<lfloor>x + 1/2\<rfloor> \<le> x + 1/2" "x + 1/2 < real_of_int \<lfloor>x + 1/2\<rfloor> + 1"
    by linarith+
  moreover have "c_round x = \<lfloor>x + 1/2\<rfloor>" using True by (simp add: c_round_def)
  ultimately show ?thesis by linarith
next
  case False
  have "x - 1/2 \<le> real_of_int \<lceil>x - 1/2\<rceil>" "real_of_int \<lceil>x - 1/2\<rceil> < x - 1/2 + 1"
    by linarith+
  moreover have "c_round x = \<lceil>x - 1/2\<rceil>" using False by (simp add: c_round_def)
  ultimately show ?thesis by linarith
qed

lemma c_round_quarter: "c_round (real_of_int j + 1/4) = j"
  unfolding c_round_def by (auto simp: floor_eq_iff ceiling_eq_iff; linarith?)

lemma c_round_three_quarters: "c_round (real_of_int j + 3/4) = j + 1"
  unfolding c_round_def by (auto simp: floor_eq_iff ceiling_eq_iff; linarith?)

lemma halfway_cases:
  assumes "\<bar>x - real_of_int r\<bar> = 1/2"
  obtains k where "x = real_of_int k + 1/2"
proof -
  from assms have "x = real_of_int r + 1/2 \<or> x = real_of_int (r - 1) + 1/2"
    by (auto simp: abs_if split: if_splits)
  then show ?thesis using that by blast
qed

lemma py_round_halfway:
  assumes "x = real_of_int k + 1/2"
  shows "py_round x = (if even k then k else k + 1)"
proof -
  have tie: "\<bar>x - real_of_int (c_round x)\<bar> = 1/2"
    using assms unfolding c_round_def by (auto simp: abs_if; linarith?)
  show ?thesis
  proof (cases "even k")
    case True
    then obtain j where j: "k = 2 * j" by (auto elim: evenE)
    have "x / 2 = real_of_int j + 1/4" using assms j by simp
    then have "c_round (x / 2) = j" by (simp only: c_round_quarter)
    then show ?thesis using tie True j by (simp add: py_round_def)
  next
    case False
    then obtain j where j: "k = 2 * j + 1" by (auto elim: oddE)
    have "x / 2 = real_of_int j + 3/4" using assms j by simp
    then have "c_round (x / 2) = j + 1" by (simp only: c_round_three_quarters)
    then show ?thesis using tie False j by (simp add: py_round_def)
  qed
qed

lemma py_round_half_even: "round_half_even x (py_round x)"
proof (cases "\<bar>x - real_of_int (c_round x)\<bar> = 1/2")
  case True
  then obtain k where k: "x = real_of_int k + 1/2" by (rule halfway_cases)
  show ?thesis unfolding round_half_even_def py_round_halfway[OF k] using k by auto
next
  case False
  then show ?thesis using c_round_near[of x] by (simp add: round_half_even_def py_round_def)
qed

lemmas dbl_eval = to_double_def to_double_pos_def scale_up.simps
  scale_down.simps py_round_def c_round_def pow2_def

text \<open>The doubles of the decimal literals, and products that the code computes.\<close>

lemma to_double_literals:
  "to_double (1/10) = Some dbl_0_1" "to_double (2/10) = Some dbl_0_2"
  "to_double (3/10) = Some dbl_0_3" "to_double (35/100) = Some dbl_0_35"
  "to_double (4/10) = Some dbl_0_4" "to_double (5/10) = Some (1/2)"
  by (simp_all add: dbl_0_1_def dbl_0_2_def dbl_0_3_def dbl_0_35_def dbl_0_4_def dbl_eval)

lemma to_double_0: "to_double 0 = Some 0"
  by (simp add: to_double_def)

lemma int_times_float_0: "int_times_float 0 (Fl x) = Inr (Fl 0)"
  by (simp add: int_times_float_def float_mul_def to_double_0)

text \<open>On a finite factor: the two conversions and the rounding.\<close>

lemma compute_aug_count_finite:
  "compute_aug_count n (Fl x) =
     (if x \<le> 0 then Inr 0
      else case to_double (real n) of
        None \<Rightarrow> Inl OverflowError
      | Some nf \<Rightarrow>
          (case to_double (nf * x) of
             None \<Rightarrow> Inl OverflowError
           | Some pr \<Rightarrow> Inr (max 1 (py_round pr))))"
  by (simp add: compute_aug_count_def float_le_0_def int_times_float_def float_mul_def
      float_round_def split: option.splits)

text \<open>
  On the other factors: \<open>-inf <= 0\<close> holds; \<open>n * inf\<close> is \<open>inf\<close> for \<open>n > 0\<close> and NaN for
  \<open>n = 0\<close>; \<open>n * nan\<close> is NaN; \<open>round\<close> raises on each of them.
\<close>

lemma compute_aug_count_nonfinite:
  "compute_aug_count n NegInf = Inr 0"
  "to_double (real n) = Some nf \<Longrightarrow> 0 < nf \<Longrightarrow> compute_aug_count n PosInf = Inl OverflowError"
  "compute_aug_count 0 PosInf = Inl (ValueError nan_msg)"
  "to_double (real n) = Some nf \<Longrightarrow> compute_aug_count n NaN = Inl (ValueError nan_msg)"
  "to_double (real n) = None \<Longrightarrow> \<not> float_le_0 f \<Longrightarrow> compute_aug_count n f = Inl OverflowError"
  by (simp_all add: compute_aug_count_def float_le_0_def int_times_float_def float_mul_def
      float_round_def to_double_0)

text \<open>
  A value of \<open>2^1024\<close> or more is beyond the doubles, so a product that large is the
  infinity and \<open>round\<close> raises: \<open>2 * 2.0**1023\<close>, for one.
\<close>

lemma scale_down_steps:
  "(\<And>j. j < k \<Longrightarrow> 2 ^ 53 \<le> y / 2 ^ j \<and> e + int j < 971) \<Longrightarrow>
     scale_down y e = scale_down (y / 2 ^ k) (e + int k)"
proof (induction k arbitrary: y e)
  case 0
  then show ?case by simp
next
  case (Suc k)
  have a: "2 ^ 53 \<le> y \<and> e < 971" using Suc.prems[of 0] by simp
  have b: "2 ^ 53 \<le> y / 2 / 2 ^ j \<and> e + 1 + int j < 971" if "j < k" for j
    using Suc.prems[of "Suc j"] that by (simp add: field_simps)
  have "scale_down y e = scale_down (y / 2) (e + 1)"
    using a by (simp add: scale_down.simps[of y e])
  also have "\<dots> = scale_down (y / 2 / 2 ^ k) (e + 1 + int k)"
    by (rule Suc.IH) (rule b)
  finally show ?case by (simp add: field_simps)
qed

lemma scale_down_huge:
  assumes "2 ^ 1024 \<le> y"
  shows "scale_down y 0 = (y / 2 ^ 971, 971)"
proof -
  have "2 ^ 53 \<le> y / 2 ^ j \<and> 0 + int j < 971" if "j < 971" for j
  proof -
    have "(2::real) ^ 53 * 2 ^ j \<le> 2 ^ 53 * 2 ^ 971"
      using that by (intro mult_left_mono power_increasing) simp_all
    also have "\<dots> = 2 ^ 1024" by (simp flip: power_add)
    finally have "(2::real) ^ 53 * 2 ^ j \<le> y" using assms by linarith
    then show ?thesis using that by (simp add: field_simps)
  qed
  then have "scale_down y 0 = scale_down (y / 2 ^ 971) (0 + int 971)"
    by (rule scale_down_steps)
  then show ?thesis by (simp add: scale_down.simps[of _ 971])
qed

lemma py_round_ge:
  assumes "real_of_int k \<le> x"
  shows "k \<le> py_round x"
proof -
  have "\<bar>x - real_of_int (py_round x)\<bar> \<le> 1/2"
    using py_round_half_even[of x] by (simp only: round_half_even_def)
  then have "real_of_int k - 1 < real_of_int (py_round x)" using assms by linarith
  then show ?thesis by linarith
qed

lemma to_double_huge:
  assumes "2 ^ 1024 \<le> y"
  shows "to_double y = None"
proof -
  have pos: "0 < y" using assms by (smt (verit) zero_less_power)
  have big: "2 ^ 53 \<le> y"
  proof -
    have "(2::real) ^ 53 \<le> 2 ^ 1024" by (rule power_increasing) simp_all
    then show ?thesis using assms by linarith
  qed
  have "(2::real) ^ 53 * 2 ^ 971 = 2 ^ 1024" by (simp flip: power_add)
  then have q: "2 ^ 53 \<le> y / 2 ^ 971" using assms by (simp add: field_simps)
  have m: "2 ^ 53 \<le> py_round (y / 2 ^ 971)"
    by (rule py_round_ge) (use q in simp)
  show ?thesis using pos big m
    by (simp add: to_double_def to_double_pos_def scale_down_huge[OF assms] Let_def)
qed

lemma compute_aug_count_overflow:
  "compute_aug_count 2 (Fl (2 ^ 1023)) = Inl OverflowError"
proof -
  have 1: "to_double (real 2) = Some 2" by (simp add: dbl_eval)
  have 2: "to_double (2 * 2 ^ 1023) = None" by (rule to_double_huge) simp
  show ?thesis using 1 2 by (simp add: compute_aug_count_finite)
qed

text \<open>
  \<open>25 * 0.1\<close> is the double \<open>2.5\<close>, although the real product of \<open>25\<close> and the double \<open>0.1\<close> is
  above \<open>2.5\<close>; \<open>90 * 0.35\<close> is a double below \<open>31.5\<close>.
\<close>

lemma int_times_float_examples:
  "int_times_float 25 (Fl dbl_0_1) = Inr (Fl (5/2))"
  "int_times_float 90 (Fl dbl_0_35) = Inr (Fl (8866461766385663 / 281474976710656))"
  "int_times_float 10 (Fl (1/2)) = Inr (Fl 5)"
  "int_times_float 3 (Fl dbl_0_1) = Inr (Fl (5404319552844596 / 18014398509481984))"
  by (simp_all add: int_times_float_def float_mul_def dbl_0_1_def dbl_0_35_def dbl_eval)


lemma compute_aug_count_half: "compute_aug_count 2 (Fl (1/2)) = Inr 1"
  by (simp add: compute_aug_count_finite dbl_eval)

lemma compute_aug_count_two_rows:
  assumes "length xs = 2"
  shows "compute_aug_count (length xs) (Fl (1/2)) = Inr 1"
  by (simp only: assms compute_aug_count_half)

lemma compute_aug_count_cases:
  assumes "compute_aug_count n factor = Inr m"
  shows "m = 0 \<or> 1 \<le> m"
  using assms by (auto simp: compute_aug_count_def split: if_splits sum.splits)



subsection \<open>The generator and totality of the transforms\<close>

lemma rng_ok_random:
  assumes "rng_ok R" and "rng_random R g = (x, g')"
  shows "0 \<le> x \<and> x < 1"
proof -
  from assms(1) have "0 \<le> fst (rng_random R g) \<and> fst (rng_random R g) < 1"
    unfolding rng_ok_def by blast
  with assms(2) show ?thesis by simp
qed

lemma rng_ok_randbelow:
  assumes "rng_ok R" and "0 < n" and "rng_randbelow R n g = (r, g')"
  shows "r < n"
proof -
  from assms(1,2) have "fst (rng_randbelow R n g) < n"
    unfolding rng_ok_def by blast
  with assms(3) show ?thesis by simp
qed

lemma randrange_ok:
  assumes "rng_ok R" "0 < n"
  shows "\<exists>r g'. randrange R n g = (Inr r, g') \<and> r < n"
proof -
  obtain r g' where rg: "rng_randbelow R n g = (r, g')" by (cases "rng_randbelow R n g")
  have "r < n" by (rule rng_ok_randbelow[OF assms rg])
  then show ?thesis using assms(2) rg by (simp add: randrange_def)
qed

lemma random_choice_ok:
  assumes "rng_ok R" "seq \<noteq> []"
  shows "\<exists>x g'. random_choice R seq g = (Inr x, g') \<and> x \<in> set seq"
proof -
  have "0 < length seq" using assms(2) by simp
  from randrange_ok[OF assms(1) this, of g]
  obtain r g' where "randrange R (length seq) g = (Inr r, g')" "r < length seq"
    by blast
  then show ?thesis by (simp add: random_choice_def)
qed

lemma replace_loop_total:
  assumes "rng_ok R"
    and "\<forall>k \<in> set keys. \<exists>alts. map_of PHRASE_SYNONYMS k = Some alts \<and> alts \<noteq> []"
  shows "\<exists>out' g'. replace_loop R p keys out g = (Inr out', g')"
  using assms(2)
proof (induction keys arbitrary: out g)
  case Nil
  then show ?case by simp
next
  case (Cons key keys)
  obtain x g1 where x: "rng_random R g = (x, g1)" by (cases "rng_random R g")
  from Cons.prems obtain alts where alts: "map_of PHRASE_SYNONYMS key = Some alts" "alts \<noteq> []"
    by auto
  obtain cand g2 where c: "random_choice R alts g1 = (Inr cand, g2)"
    using random_choice_ok[OF assms(1) alts(2)] by blast
  have ih: "\<exists>out' g'. replace_loop R p keys out0 g0 = (Inr out', g')" for out0 g0
    using Cons.IH Cons.prems by simp
  show ?case
  proof (cases "x < p \<and> contains out key")
    case True
    obtain out' g' where "replace_loop R p keys (replace_first out key cand) g2 = (Inr out', g')"
      using ih by blast
    then show ?thesis using x alts c True by simp
  next
    case False
    obtain out' g' where "replace_loop R p keys out g1 = (Inr out', g')"
      using ih by blast
    then show ?thesis using x False by auto
  qed
qed

lemma lexicon_alternatives:
  "\<forall>k \<in> set (map fst PHRASE_SYNONYMS). \<exists>alts. map_of PHRASE_SYNONYMS k = Some alts \<and> alts \<noteq> []"
  by (simp add: PHRASE_SYNONYMS_def)

lemma set_keys_sorted: "set keys_sorted = set (map fst PHRASE_SYNONYMS)"
  by (simp add: keys_sorted_def)

lemma replace_phrases_total:
  assumes "rng_ok R"
  shows "\<exists>out g'. replace_phrases R text p g = (Inr out, g')"
proof (cases "p \<le> 0")
  case True
  then show ?thesis by (simp add: replace_phrases_def)
next
  case False
  have "\<forall>k \<in> set keys_sorted. \<exists>alts. map_of PHRASE_SYNONYMS k = Some alts \<and> alts \<noteq> []"
    using lexicon_alternatives unfolding set_keys_sorted .
  from replace_loop_total[OF assms this] False show ?thesis by (simp add: replace_phrases_def)
qed

lemma jitter_loop_total:
  assumes "rng_ok R"
  shows "\<exists>cs g'. jitter_loop R p s acc g = (Inr cs, g')"
proof (induction s arbitrary: acc g)
  case Nil
  then show ?case by simp
next
  case (Cons ch rest)
  obtain x g1 where x: "rng_random R g = (x, g1)" by (cases "rng_random R g")
  obtain s1 h1 where c1: "random_choice R [[ch, ch], [33, 63], [63, 33], [ch]] g1 = (Inr s1, h1)"
    using random_choice_ok[OF assms, of "[[ch, ch], [33, 63], [63, 33], [ch]]" g1] by auto
  obtain s2 h2 where c2: "random_choice R ([[44, 32], [44], [59, 32]] :: ustr list) g1 = (Inr s2, h2)"
    using random_choice_ok[OF assms, of "[[44, 32], [44], [59, 32]] :: ustr list" g1] by auto
  have ih: "\<exists>cs g'. jitter_loop R p rest acc0 g0 = (Inr cs, g')" for acc0 g0
    using Cons.IH by blast
  consider (mark) "(ch = 63 \<or> ch = 33) \<and> x < p" | (comma) "\<not> (ch = 63 \<or> ch = 33) \<and> ch = 44 \<and> x < p"
    | (plain) "\<not> ((ch = 63 \<or> ch = 33) \<and> x < p) \<and> \<not> (ch = 44 \<and> x < p)" by blast
  then show ?case
  proof cases
    case mark
    from ih[of "acc @ [s1]" h1] show ?thesis using mark x c1 by simp
  next
    case comma
    from ih[of "acc @ [s2]" h2] show ?thesis using comma x c2 by simp
  next
    case plain
    from ih[of "acc @ [[ch]]" g1] ih[of "acc @ [[ch]]" g] show ?thesis using plain x by auto
  qed
qed

lemma punct_jitter_total:
  assumes "rng_ok R"
  shows "\<exists>out g'. punct_jitter R text p g = (Inr out, g')"
proof -
  obtain cs g' where "jitter_loop R p text [] g = (Inr cs, g')"
    using jitter_loop_total[OF assms] by blast
  then show ?thesis by (simp add: punct_jitter_def)
qed

lemma augment_dialogue_total:
  assumes "rng_ok R"
  shows "\<exists>out g'. augment_dialogue U R text cfg g = (Inr out, g')"
proof -
  obtain o1 g1 where 1: "replace_phrases R text (p_syn cfg) g = (Inr o1, g1)"
    using replace_phrases_total[OF assms] by blast
  obtain o2 g2 where 2: "mask_numbers U R o1 (p_mask_num cfg) g1 = (o2, g2)"
    by (cases "mask_numbers U R o1 (p_mask_num cfg) g1")
  obtain o3 g3 where 3: "drop_fillers U R o2 (p_drop_filler cfg) g2 = (o3, g3)"
    by (cases "drop_fillers U R o2 (p_drop_filler cfg) g2")
  obtain o4 g4 where 4: "punct_jitter R o3 (p_punct cfg) g3 = (Inr o4, g4)"
    using punct_jitter_total[OF assms] by blast
  show ?thesis using 1 2 3 4 by (simp add: augment_dialogue_def)
qed

lemma sample_indices_ok:
  assumes "rng_ok R" "0 < n"
  shows "\<exists>idx g'. sample_indices R n m g = (Inr idx, g') \<and> length idx = m \<and> (\<forall>j \<in> set idx. j < n)"
proof (induction m arbitrary: g)
  case 0
  then show ?case by simp
next
  case (Suc m)
  obtain r g1 where r: "randrange R n g = (Inr r, g1)" "r < n"
    using randrange_ok[OF assms] by blast
  obtain idx g2 where i: "sample_indices R n m g1 = (Inr idx, g2)" "length idx = m" "\<forall>j \<in> set idx. j < n"
    using Suc.IH by blast
  show ?case using r i by simp
qed


lemma counter_rng_ok: "rng_ok counter_rng"
  by (simp add: rng_ok_def counter_rng_def)

subsection \<open>The column check\<close>

lemma contains_prefix: "contains (key @ rest) key"
proof (cases "key @ rest")
  case Nil
  then show ?thesis by simp
next
  case (Cons a list)
  have "take (length key) (key @ rest) = key" by simp
  then show ?thesis using Cons by simp
qed

lemma contains_append: "contains s key \<Longrightarrow> contains (pre @ s) key"
  by (induction pre) auto

lemma contains_mid: "contains (pre @ key @ rest) key"
  by (rule contains_append) (rule contains_prefix)

lemma check_columns_missing:
  "\<exists>c \<in> set req. c \<notin> set cols \<Longrightarrow>
   \<exists>c \<in> set req. c \<notin> set cols \<and>
     check_columns req cols path = Some (ValueError (missing_msg c path))"
  by (induction req) auto

lemma check_columns_present:
  "set req \<subseteq> set cols \<Longrightarrow> check_columns req cols path = None"
  by (induction req) auto

text \<open>
  Claim C9.  When a required column is missing from the input, \<open>run_augment\<close> raises a
  \<open>ValueError\<close> whose message contains the name of a missing required column and the input
  path; the generator is still in its seeded state, so nothing was sampled or
  transformed, and no frame was written.
\<close>

theorem run_augment_missing_column:
  assumes "c \<in> set required_cols" and "c \<notin> set (columns df_in)"
  shows "\<exists>c' \<in> set required_cols. c' \<notin> set (columns df_in) \<and>
           run_augment U R df_in input_csv factor sd limit =
             (Inl (ValueError (missing_msg c' input_csv)), rng_seed R sd) \<and>
           contains (missing_msg c' input_csv) c' \<and>
           contains (missing_msg c' input_csv) input_csv \<and>
           written (run_augment U R df_in input_csv factor sd limit) = None"
proof -
  from assms obtain c' where c': "c' \<in> set required_cols" "c' \<notin> set (columns df_in)"
    "check_columns required_cols (columns df_in) input_csv =
       Some (ValueError (missing_msg c' input_csv))"
    using check_columns_missing[of required_cols "columns df_in" input_csv] by blast
  have "contains (missing_msg c' input_csv) c'"
    unfolding missing_msg_def
    using contains_mid[of "ascii ''Missing required column '' @ [39]" c'
        "[39] @ ascii '' in '' @ input_csv"] by simp
  moreover have "contains (missing_msg c' input_csv) input_csv"
    unfolding missing_msg_def
    using contains_mid[of "ascii ''Missing required column '' @ [39] @ c' @ [39] @ ascii '' in ''"
        input_csv "[]"] by simp
  moreover have run: "run_augment U R df_in input_csv factor sd limit =
             (Inl (ValueError (missing_msg c' input_csv)), rng_seed R sd)"
    using c'(3) by (simp add: run_augment_def)
  moreover have "written (run_augment U R df_in input_csv factor sd limit) = None"
    by (simp add: run written_def)
  ultimately show ?thesis using c'(1,2) by blast
qed

theorem run_augment_missing_column_witness:
  "run_augment ucd_sample counter_rng ex_frame_no_topic (ascii ''in.csv'') (Fl (1/2)) 42 None =
     (Inl (ValueError (ascii ''Missing required column '' @ [39] @ ascii ''topic'' @ [39]
                        @ ascii '' in in.csv'')), 42)"
proof -
  have 1: "ascii ''topic'' \<in> set required_cols" by (simp add: required_cols_def)
  have 2: "ascii ''topic'' \<notin> set (columns ex_frame_no_topic)"
    by (simp add: ex_frame_no_topic_def ascii_def)
  have 3: "c' \<in> set required_cols \<Longrightarrow> c' \<notin> set (columns ex_frame_no_topic)
             \<Longrightarrow> c' = ascii ''topic''" for c'
    by (auto simp: required_cols_def ex_frame_no_topic_def)
  from run_augment_missing_column[OF 1 2, of ucd_sample counter_rng "ascii ''in.csv''" "Fl (1/2)" 42 None]
  obtain c' where "c' \<in> set required_cols" "c' \<notin> set (columns ex_frame_no_topic)"
    "run_augment ucd_sample counter_rng ex_frame_no_topic (ascii ''in.csv'') (Fl (1/2)) 42 None =
       (Inl (ValueError (missing_msg c' (ascii ''in.csv''))), rng_seed counter_rng 42)"
    by blast
  then show ?thesis using 3[of c'] by (simp add: missing_msg_def counter_rng_def ascii_def)
qed

subsection \<open>Empty input and pass-through\<close>

lemma py_round_0: "py_round 0 = 0"
  by (simp add: py_round_def c_round_def)

text \<open>
  Claim C10.  For a positive factor \<open>compute_aug_count 0 factor\<close> returns \<open>1\<close>, and a run on a
  frame that has the required columns and no rows (after the limit) raises the error of
  \<open>randrange\<close> on an empty range, with the generator still in its seeded state; no
  frame is written.
\<close>

theorem run_augment_empty:
  assumes "0 < factor"
  shows "compute_aug_count 0 (Fl factor) = Inr 1 \<and>
     (set required_cols \<subseteq> set (columns df_in) \<and> rows (apply_limit limit df_in) = [] \<longrightarrow>
        run_augment U R df_in input_csv (Fl factor) sd limit = (Inl EmptyRange, rng_seed R sd) \<and>
        written (run_augment U R df_in input_csv (Fl factor) sd limit) = None)"
proof -
  have m: "compute_aug_count 0 (Fl factor) = Inr 1"
    using assms by (simp add: compute_aug_count_finite to_double_0 py_round_0)
  show ?thesis using m
    by (auto simp: run_augment_def check_columns_present randrange_def written_def)
qed

theorem run_augment_empty_witness:
  "compute_aug_count 0 (Fl (1/2)) = Inr 1 \<and>
   run_augment ucd_sample counter_rng ex_frame2 (ascii ''in.csv'') (Fl (1/2)) 42 (Some 0) =
     (Inl EmptyRange, 42)"
proof -
  have 1: "set required_cols \<subseteq> set (columns ex_frame2)" by (simp add: ex_frame2_def)
  have 2: "rows (apply_limit (Some 0) ex_frame2) = []" by (simp add: apply_limit_def head_def)
  have 3: "(0::real) < 1/2" by simp
  show ?thesis
    using run_augment_empty[OF 3, of ex_frame2 "Some 0" ucd_sample counter_rng "ascii ''in.csv''" 42]
      1 2 by (simp add: counter_rng_def)
qed

subsection \<open>Synthetic rows and their identifiers\<close>

lemma str_nat_digits: "c \<in> set (str_nat n) \<Longrightarrow> 48 \<le> c \<and> c \<le> 57"
proof (induction n arbitrary: c rule: str_nat.induct)
  case (1 n)
  show ?case
  proof (cases "n < 10")
    case True
    then show ?thesis using "1.prems" by (simp add: str_nat.simps[of n])
  next
    case False
    have "n mod 10 < 10" by simp
    then show ?thesis using "1.prems" "1.IH"[OF False] False
      by (auto simp: str_nat.simps[of n])
  qed
qed

lemma dec_value_str_nat: "dec_value (str_nat n) = n"
proof (induction n rule: str_nat.induct)
  case (1 n)
  show ?case
  proof (cases "n < 10")
    case True
    then show ?thesis by (simp add: str_nat.simps[of n] dec_value_def)
  next
    case False
    then have "dec_value (str_nat (n div 10)) = n div 10" using "1.IH" by simp
    then show ?thesis using False by (simp add: str_nat.simps[of n] dec_value_def)
  qed
qed

lemma str_nat_inj:
  assumes "str_nat a = str_nat b"
  shows "a = b"
proof -
  have "dec_value (str_nat a) = dec_value (str_nat b)" by (simp only: assms)
  then show ?thesis by (simp only: dec_value_str_nat)
qed

lemma digits_suffix:
  assumes "\<forall>c \<in> set ds. 48 \<le> c \<and> c \<le> (57::nat)"
  shows "takeWhile (\<lambda>c. 48 \<le> c \<and> c \<le> 57) (rev (a @ ascii ''_aug'' @ ds)) = rev ds"
proof -
  have "rev (a @ ascii ''_aug'' @ ds) = rev ds @ (103 # 117 # 97 # 95 # rev a)"
    by (simp add: ascii_def)
  moreover have "takeWhile (\<lambda>c. 48 \<le> c \<and> c \<le> 57) (rev ds @ (103 # 117 # 97 # 95 # rev a)) =
      rev ds @ takeWhile (\<lambda>c. 48 \<le> c \<and> c \<le> 57) (103 # 117 # 97 # 95 # rev a)"
    using assms by (intro takeWhile_append2) simp
  moreover have "takeWhile (\<lambda>c. 48 \<le> c \<and> c \<le> 57) (103 # 117 # 97 # 95 # rev a) = []"
    by simp
  ultimately show ?thesis by simp
qed

lemma ensure_unique_fname_inj:
  assumes "ensure_unique_fname f1 i = ensure_unique_fname f2 j"
  shows "i = j \<and> f1 = f2"
proof -
  let ?d = "\<lambda>c::nat. 48 \<le> c \<and> c \<le> 57"
  have e: "f1 @ ascii ''_aug'' @ str_nat i = f2 @ ascii ''_aug'' @ str_nat j"
    using assms by (simp only: ensure_unique_fname_def)
  have d1: "\<forall>c \<in> set (str_nat i). 48 \<le> c \<and> c \<le> 57" using str_nat_digits by blast
  have d2: "\<forall>c \<in> set (str_nat j). 48 \<le> c \<and> c \<le> 57" using str_nat_digits by blast
  have "rev (str_nat i) = takeWhile ?d (rev (f1 @ ascii ''_aug'' @ str_nat i))"
    by (simp only: digits_suffix[OF d1])
  also have "\<dots> = takeWhile ?d (rev (f2 @ ascii ''_aug'' @ str_nat j))"
    by (simp only: e)
  also have "\<dots> = rev (str_nat j)"
    by (simp only: digits_suffix[OF d2])
  finally have "str_nat i = str_nat j" by simp
  then have ij: "i = j" by (rule str_nat_inj)
  then show ?thesis using e by simp
qed

lemma synthetic_row_fields:
  assumes "synthetic_row U R cfg src i new"
  shows "row_get new (ascii ''summary'') = row_get src (ascii ''summary'')"
    and "row_get new (ascii ''topic'') = row_get src (ascii ''topic'')"
    and "map fst new = required_cols"
    and "\<exists>fnm. row_get src (ascii ''fname'') = Inr fnm \<and> row_get new (ascii ''fname'') = Inr (ensure_unique_fname fnm i)"
    and "\<exists>dlg aug g1 g2. row_get src (ascii ''dialogue'') = Inr dlg \<and> row_get new (ascii ''dialogue'') = Inr aug \<and>
           augment_dialogue U R dlg cfg g1 = (Inr aug, g2)"
proof -
  from assms obtain fnm dlg smm tpc aug g1 g2 where
    src: "row_get src (ascii ''fname'') = Inr fnm" "row_get src (ascii ''dialogue'') = Inr dlg"
      "row_get src (ascii ''summary'') = Inr smm" "row_get src (ascii ''topic'') = Inr tpc"
    and aug: "augment_dialogue U R dlg cfg g1 = (Inr aug, g2)"
    and new: "new = [(ascii ''fname'', ensure_unique_fname fnm i), (ascii ''dialogue'', aug),
               (ascii ''summary'', smm), (ascii ''topic'', tpc)]"
    unfolding synthetic_row_def by blast
  have n: "row_get new (ascii ''fname'') = Inr (ensure_unique_fname fnm i)"
    "row_get new (ascii ''dialogue'') = Inr aug"
    "row_get new (ascii ''summary'') = Inr smm"
    "row_get new (ascii ''topic'') = Inr tpc"
    by (simp_all add: new row_get_def ascii_def)
  show "row_get new (ascii ''summary'') = row_get src (ascii ''summary'')"
    by (simp only: n src)
  show "row_get new (ascii ''topic'') = row_get src (ascii ''topic'')"
    by (simp only: n src)
  show "map fst new = required_cols" by (simp add: new required_cols_def)
  show "\<exists>fnm. row_get src (ascii ''fname'') = Inr fnm \<and> row_get new (ascii ''fname'') = Inr (ensure_unique_fname fnm i)"
    using src(1) n(1) by blast
  show "\<exists>dlg aug g1 g2. row_get src (ascii ''dialogue'') = Inr dlg \<and> row_get new (ascii ''dialogue'') = Inr aug \<and>
           augment_dialogue U R dlg cfg g1 = (Inr aug, g2)"
    using src(2) n(2) aug by blast
qed

lemma row_get_present:
  assumes "c \<in> fst ` set r"
  shows "\<exists>v. row_get r c = Inr v"
proof -
  from assms obtain v where "map_of r c = Some v"
    by (metis domD dom_map_of_conv_image_fst)
  then show ?thesis by (simp add: row_get_def)
qed

lemma augment_rows_ok:
  assumes "rng_ok R"
    and "\<forall>r \<in> set rws. set required_cols \<subseteq> fst ` set r"
    and "\<forall>j \<in> set idx. j < length rws"
  shows "\<exists>new g'. augment_rows U R cfg rws i idx acc g = (Inr (acc @ new), g') \<and>
           length new = length idx \<and>
           (\<forall>j < length idx. synthetic_row U R cfg (rws ! (idx ! j)) (i + j) (new ! j))"
  using assms(3)
proof (induction idx arbitrary: i acc g)
  case Nil
  then show ?case by simp
next
  case (Cons src_idx later)
  let ?row = "rws ! src_idx"
  have lt: "src_idx < length rws" using Cons.prems by simp
  then have cols: "set required_cols \<subseteq> fst ` set ?row" using assms(2) by simp
  obtain fnm where f: "row_get ?row (ascii ''fname'') = Inr fnm"
    using row_get_present[of "ascii ''fname''" ?row] cols by (auto simp: required_cols_def)
  obtain dlg where d: "row_get ?row (ascii ''dialogue'') = Inr dlg"
    using row_get_present[of "ascii ''dialogue''" ?row] cols by (auto simp: required_cols_def)
  obtain smm where s: "row_get ?row (ascii ''summary'') = Inr smm"
    using row_get_present[of "ascii ''summary''" ?row] cols by (auto simp: required_cols_def)
  obtain tpc where t: "row_get ?row (ascii ''topic'') = Inr tpc"
    using row_get_present[of "ascii ''topic''" ?row] cols by (auto simp: required_cols_def)
  obtain aug g1 where a: "augment_dialogue U R dlg cfg g = (Inr aug, g1)"
    using augment_dialogue_total[OF assms(1)] by blast
  let ?new = "[(ascii ''fname'', ensure_unique_fname fnm i), (ascii ''dialogue'', aug),
               (ascii ''summary'', smm), (ascii ''topic'', tpc)]"
  have syn: "synthetic_row U R cfg ?row i ?new"
    unfolding synthetic_row_def using f d s t a by blast
  have "\<forall>j \<in> set later. j < length rws" using Cons.prems by simp
  from Cons.IH[OF this, of "Suc i" "acc @ [?new]" g1]
  obtain more g' where ih: "augment_rows U R cfg rws (Suc i) later (acc @ [?new]) g1 = (Inr ((acc @ [?new]) @ more), g')"
    "length more = length later"
    "\<forall>j < length later. synthetic_row U R cfg (rws ! (later ! j)) (Suc i + j) (more ! j)"
    by blast
  have step: "augment_rows U R cfg rws i (src_idx # later) acc g = (Inr (acc @ (?new # more)), g')"
    using lt f d s t a ih(1) by (simp add: iloc_def)
  have "synthetic_row U R cfg (rws ! ((src_idx # later) ! j)) (i + j) ((?new # more) ! j)"
    if "j < length (src_idx # later)" for j
  proof (cases j)
    case 0
    then show ?thesis using syn by simp
  next
    case (Suc k)
    then show ?thesis using ih(3) that by simp
  qed
  then show ?case using step ih(2) by (intro exI[of _ "?new # more"] exI[of _ g']) simp
qed

subsection \<open>Whole runs\<close>

lemma run_augment_okI:
  assumes "set required_cols \<subseteq> set (columns df_in)"
    and "apply_limit limit df_in = df"
    and "compute_aug_count (length (rows df)) factor = Inr m" and "m \<noteq> 0"
    and "sample_indices R (length (rows df)) (nat m) (rng_seed R sd) = (Inr idx, g1)"
    and "augment_rows U R (default_config sd) (rows df) 0 idx [] g1 = (Inr new_rows, g2)"
  shows "run_augment U R df_in input_csv factor sd limit =
           (Inr (concat_frames df new_rows,
                 (length (rows df), length (rows (concat_frames df new_rows)))), g2)"
  using assms by (simp add: run_augment_def check_columns_present Let_def)

lemma run_augment_passI:
  assumes "set required_cols \<subseteq> set (columns df_in)"
    and "compute_aug_count (length (rows (apply_limit limit df_in))) factor = Inr 0"
  shows "run_augment U R df_in input_csv factor sd limit =
           (Inr (apply_limit limit df_in, (length (rows (apply_limit limit df_in)), 0)), rng_seed R sd)"
  using assms by (simp add: run_augment_def check_columns_present Let_def)

lemma apply_limit_columns: "columns (apply_limit limit df) = columns df"
  by (simp add: apply_limit_def split: option.splits)

lemma apply_limit_rows_subset: "set (rows (apply_limit limit df)) \<subseteq> set (rows df)"
  by (auto simp: apply_limit_def head_def split: option.splits dest: in_set_takeD)

lemma frame_ok_rows:
  assumes "frame_ok df" "set required_cols \<subseteq> set (columns df)" "r \<in> set (rows (apply_limit limit df))"
  shows "set required_cols \<subseteq> fst ` set r"
proof -
  have "r \<in> set (rows df)" using assms(3) apply_limit_rows_subset by blast
  then have "map fst r = columns df" using assms(1) by (simp add: frame_ok_def list_all_iff)
  then have "fst ` set r = set (columns df)" by (metis set_map)
  then show ?thesis using assms(2) by simp
qed

lemma concat_frames_same_columns:
  assumes "set required_cols \<subseteq> set (columns df)"
  shows "concat_frames df new = \<lparr>columns = columns df, rows = rows df @ new\<rparr>"
proof -
  have "filter (\<lambda>c. c \<notin> set (columns df)) required_cols = []"
    using assms by (auto simp: filter_empty_conv)
  then show ?thesis by (simp add: concat_frames_def)
qed

lemma empty_rows_raise:
  assumes "set required_cols \<subseteq> set (columns df_in)"
    and "rows (apply_limit limit df_in) = []"
    and "compute_aug_count 0 factor = Inr m" and "m \<noteq> 0"
  shows "run_augment U R df_in input_csv factor sd limit = (Inl EmptyRange, rng_seed R sd)"
proof -
  have "1 \<le> m" using compute_aug_count_cases[OF assms(3)] assms(4) by auto
  then obtain k where k: "nat m = Suc k" by (cases "nat m") auto
  show ?thesis using assms k
    by (simp add: run_augment_def check_columns_present randrange_def Let_def)
qed

lemma run_augment_structure:
  assumes "rng_ok R" and "frame_ok df_in" and "set required_cols \<subseteq> set (columns df_in)"
    and "src = rows (apply_limit limit df_in)" and "src \<noteq> []"
    and "compute_aug_count (length src) factor = Inr (int m)" and "0 < m"
  shows "\<exists>idx synth g2.
           run_augment U R df_in input_csv factor sd limit =
             (Inr (\<lparr>columns = columns df_in, rows = src @ synth\<rparr>,
                   (length src, length src + m)), g2) \<and>
           fst (sample_indices R (length src) m (rng_seed R sd)) = Inr idx \<and>
           length idx = m \<and> length synth = m \<and>
           (\<forall>j < m. idx ! j < length src \<and>
              synthetic_row U R (default_config sd) (src ! (idx ! j)) j (synth ! j))"
proof -
  let ?df = "apply_limit limit df_in"
  have n: "0 < length src" using assms(5) by simp
  obtain idx g1 where idx: "sample_indices R (length src) m (rng_seed R sd) = (Inr idx, g1)"
    "length idx = m" "\<forall>j \<in> set idx. j < length src"
    using sample_indices_ok[OF assms(1) n] by blast
  have rws: "\<forall>r \<in> set src. set required_cols \<subseteq> fst ` set r"
    using frame_ok_rows[OF assms(2,3)] assms(4) by blast
  obtain synth g2 where synth:
    "augment_rows U R (default_config sd) src 0 idx [] g1 = (Inr ([] @ synth), g2)"
    "length synth = length idx"
    "\<forall>j < length idx. synthetic_row U R (default_config sd) (src ! (idx ! j)) (0 + j) (synth ! j)"
    using augment_rows_ok[OF assms(1) rws idx(3), of U "default_config sd" 0 "[]" g1] by blast
  have cnt: "compute_aug_count (length (rows ?df)) factor = Inr (int m)" "int m \<noteq> 0"
    using assms(4,6,7) by simp_all
  have run: "run_augment U R df_in input_csv factor sd limit =
           (Inr (concat_frames ?df synth,
                 (length (rows ?df), length (rows (concat_frames ?df synth)))), g2)"
    using run_augment_okI[OF assms(3) refl cnt, of R sd idx g1 U synth g2] idx(1) synth(1) assms(4)
    by simp
  have cols: "set required_cols \<subseteq> set (columns ?df)"
    using assms(3) by (simp add: apply_limit_columns)
  have run': "run_augment U R df_in input_csv factor sd limit =
             (Inr (\<lparr>columns = columns df_in, rows = src @ synth\<rparr>,
                   (length src, length src + m)), g2)"
    by (simp add: run concat_frames_same_columns[OF cols] apply_limit_columns assms(4)
        synth(2) idx(2))
  have each: "idx ! j < length src \<and>
              synthetic_row U R (default_config sd) (src ! (idx ! j)) j (synth ! j)"
    if "j < m" for j
    using idx(2,3) synth(3) that by simp
  show ?thesis using run' idx(1,2) synth(2) each
    by (intro exI[of _ idx] exI[of _ synth] exI[of _ g2]) simp
qed

text \<open>
  Claim C2.  In a run that samples \<open>m > 0\<close> rows from a non-empty source \<open>src\<close> (the rows of
  the input after the limit), the frame written has the columns of the input and the rows
  \<open>src\<close>, unchanged and in order, followed by \<open>m\<close> synthetic rows; the synthetic row of
  index \<open>j\<close> is made from the source row \<open>src ! (idx ! j)\<close> of the \<open>j\<close>-th sampled index: its identifier is
  derived from the source identifier and \<open>j\<close>, its dialogue is a result of the pipeline on the
  source dialogue, and its summary and topic are those of the source row.
\<close>

theorem run_augment_appends:
  assumes "rng_ok R" and "frame_ok df_in" and "set required_cols \<subseteq> set (columns df_in)"
    and "src = rows (apply_limit limit df_in)" and "src \<noteq> []"
    and "compute_aug_count (length src) factor = Inr (int m)" and "0 < m"
  shows "\<exists>idx synth.
           written (run_augment U R df_in input_csv factor sd limit) =
             Some \<lparr>columns = columns df_in, rows = src @ synth\<rparr> \<and>
           fst (sample_indices R (length src) m (rng_seed R sd)) = Inr idx \<and>
           length idx = m \<and> length synth = m \<and>
           (\<forall>j < m. idx ! j < length src \<and>
              synthetic_row U R (default_config sd) (src ! (idx ! j)) j (synth ! j) \<and>
              row_get (synth ! j) (ascii ''summary'') =
                row_get (src ! (idx ! j)) (ascii ''summary'') \<and>
              row_get (synth ! j) (ascii ''topic'') =
                row_get (src ! (idx ! j)) (ascii ''topic''))"
proof -
  from run_augment_structure[OF assms, of U input_csv sd]
  obtain idx synth g2 where s:
    "run_augment U R df_in input_csv factor sd limit =
       (Inr (\<lparr>columns = columns df_in, rows = src @ synth\<rparr>, (length src, length src + m)), g2)"
    "length idx = m" "length synth = m"
    "\<forall>j < m. idx ! j < length src \<and>
       synthetic_row U R (default_config sd) (src ! (idx ! j)) j (synth ! j)"
    and si: "fst (sample_indices R (length src) m (rng_seed R sd)) = Inr idx"
    by blast
  have w: "written (run_augment U R df_in input_csv factor sd limit) =
             Some \<lparr>columns = columns df_in, rows = src @ synth\<rparr>"
    by (simp add: s(1) written_def)
  have each: "idx ! j < length src \<and>
              synthetic_row U R (default_config sd) (src ! (idx ! j)) j (synth ! j) \<and>
              row_get (synth ! j) (ascii ''summary'') =
                row_get (src ! (idx ! j)) (ascii ''summary'') \<and>
              row_get (synth ! j) (ascii ''topic'') =
                row_get (src ! (idx ! j)) (ascii ''topic'')"
    if "j < m" for j
  proof -
    have a: "idx ! j < length src"
      and b: "synthetic_row U R (default_config sd) (src ! (idx ! j)) j (synth ! j)"
      using s(4) that by simp_all
    show ?thesis using a b synthetic_row_fields(1,2)[OF b] by simp
  qed
  show ?thesis using w si s(2,3) each by (intro exI[of _ idx] exI[of _ synth]) simp
qed

text \<open>
  Every function of the program that draws, run on two generators from related states,
  returns the same value and leaves related states: it makes the same draws in the same
  order in both, and nothing but the values drawn enters its result.
\<close>

lemma rel_outE:
  assumes "rel_out S r1 r2"
  obtains a g' h' where "r1 = (a, g')" "r2 = (a, h')" "S g' h'"
  using assms unfolding rel_out_def by (cases r1, cases r2) auto

lemma rel_outI: "S g' h' \<Longrightarrow> rel_out S (a, g') (a, h')"
  by (simp add: rel_out_def)

lemma sim_random:
  assumes "rng_sim S R1 R2" and "S g h"
  shows "rel_out S (rng_random R1 g) (rng_random R2 h)"
  using assms unfolding rng_sim_def by blast

lemma sim_randrange:
  assumes "rng_sim S R1 R2" and "S g h"
  shows "rel_out S (randrange R1 n g) (randrange R2 n h)"
proof (cases "n = 0")
  case True
  then show ?thesis using assms(2) by (simp add: randrange_def rel_out_def)
next
  case False
  then have "rel_out S (rng_randbelow R1 n g) (rng_randbelow R2 n h)"
    using assms unfolding rng_sim_def by simp
  then obtain r g' h' where "rng_randbelow R1 n g = (r, g')" "rng_randbelow R2 n h = (r, h')" "S g' h'"
    by (rule rel_outE)
  then show ?thesis using False by (simp add: randrange_def rel_out_def)
qed

lemma sim_random_choice:
  assumes "rng_sim S R1 R2" and "S g h"
  shows "rel_out S (random_choice R1 seq g) (random_choice R2 seq h)"
proof -
  from sim_randrange[OF assms, of "length seq"]
  obtain r g' h' where r: "randrange R1 (length seq) g = (r, g')"
    "randrange R2 (length seq) h = (r, h')" "S g' h'" by (rule rel_outE)
  show ?thesis using r by (cases r) (simp_all add: random_choice_def rel_out_def)
qed

lemma sim_replace_loop:
  assumes "rng_sim S R1 R2" and "S g h"
  shows "rel_out S (replace_loop R1 p keys out g) (replace_loop R2 p keys out h)"
  using assms(2)
proof (induction keys arbitrary: out g h)
  case Nil
  then show ?case by (simp add: rel_out_def)
next
  case (Cons key keys)
  from sim_random[OF assms(1) Cons.prems]
  obtain x g1 h1 where x: "rng_random R1 g = (x, g1)" "rng_random R2 h = (x, h1)" "S g1 h1"
    by (rule rel_outE)
  show ?case
  proof (cases "x < p \<and> contains out key")
    case False
    then show ?thesis using x Cons.IH[OF x(3), of out] by auto
  next
    case True
    show ?thesis
    proof (cases "map_of PHRASE_SYNONYMS key")
      case None
      then show ?thesis using x True by (simp add: rel_out_def)
    next
      case (Some alts)
      from sim_random_choice[OF assms(1) x(3), of alts]
      obtain c g2 h2 where c: "random_choice R1 alts g1 = (c, g2)"
        "random_choice R2 alts h1 = (c, h2)" "S g2 h2" by (rule rel_outE)
      show ?thesis
      proof (cases c)
        case (Inl e)
        then show ?thesis using x True Some c by (simp add: rel_out_def)
      next
        case (Inr cand)
        then show ?thesis using x True Some c Cons.IH[OF c(3), of "replace_first out key cand"]
          by simp
      qed
    qed
  qed
qed

lemma sim_replace_phrases:
  assumes "rng_sim S R1 R2" and "S g h"
  shows "rel_out S (replace_phrases R1 tx p g) (replace_phrases R2 tx p h)"
  using sim_replace_loop[OF assms] assms(2) by (simp add: replace_phrases_def rel_out_def)

lemma sim_mask_repl:
  assumes "rng_sim S R1 R2" and "S g h"
  shows "rel_out S (mask_repl R1 p m g) (mask_repl R2 p m h)"
proof -
  from sim_random[OF assms]
  obtain x g1 h1 where x: "rng_random R1 g = (x, g1)" "rng_random R2 h = (x, h1)" "S g1 h1"
    by (rule rel_outE)
  then show ?thesis by (simp add: mask_repl_def rel_out_def)
qed

lemma sim_re_sub_from:
  assumes repl: "\<And>m g h. S g h \<Longrightarrow> rel_out S (repl1 m g) (repl2 m h)"
    and "S g h"
  shows "rel_out S (re_sub_from U r repl1 tx i g) (re_sub_from U r repl2 tx i h)"
  using assms(2)
proof (induction "Suc (length tx) - i" arbitrary: i g h rule: less_induct)
  case less
  note r1 = re_sub_from.simps[of U r repl1 tx i g]
  note r2 = re_sub_from.simps[of U r repl2 tx i h]
  show ?case
  proof (cases "length tx < i")
    case True
    then show ?thesis using less.prems by (simp add: r1 r2 rel_out_def)
  next
    case le: False
    show ?thesis
    proof (cases "match_at U r tx i")
      case None
      show ?thesis
      proof (cases "i < length tx")
        case True
        have "Suc (length tx) - Suc i < Suc (length tx) - i" using True by simp
        from less.hyps[OF this less.prems]
        obtain a g' h' where "re_sub_from U r repl1 tx (Suc i) g = (a, g')"
          "re_sub_from U r repl2 tx (Suc i) h = (a, h')" "S g' h'" by (rule rel_outE)
        then show ?thesis using le None True by (simp add: r1 r2 rel_out_def)
      next
        case False
        then show ?thesis using le None less.prems r1 r2 by (simp add: rel_out_def)
      qed
    next
      case (Some e)
      from repl[OF less.prems, of "take (e - i) (drop i tx)"]
      obtain s g1 h1 where s: "repl1 (take (e - i) (drop i tx)) g = (s, g1)"
        "repl2 (take (e - i) (drop i tx)) h = (s, h1)" "S g1 h1" by (rule rel_outE)
      show ?thesis
      proof (cases "i < e")
        case True
        have "Suc (length tx) - e < Suc (length tx) - i" using True le by simp
        from less.hyps[OF this s(3)]
        obtain a g' h' where "re_sub_from U r repl1 tx e g1 = (a, g')"
          "re_sub_from U r repl2 tx e h1 = (a, h')" "S g' h'" by (rule rel_outE)
        then show ?thesis using le Some True s by (simp add: r1 r2 rel_out_def)
      next
        case nlt: False
        show ?thesis
        proof (cases "i < length tx")
          case True
          have "Suc (length tx) - Suc i < Suc (length tx) - i" using True by simp
          from less.hyps[OF this s(3)]
          obtain a g' h' where "re_sub_from U r repl1 tx (Suc i) g1 = (a, g')"
            "re_sub_from U r repl2 tx (Suc i) h1 = (a, h')" "S g' h'" by (rule rel_outE)
          then show ?thesis using le Some nlt True s by (simp add: r1 r2 rel_out_def)
        next
          case False
          then show ?thesis using le Some nlt s r1 r2 by (simp add: rel_out_def)
        qed
      qed
    qed
  qed
qed

lemma sim_mask_numbers:
  assumes "rng_sim S R1 R2" and "S g h"
  shows "rel_out S (mask_numbers U R1 tx p g) (mask_numbers U R2 tx p h)"
proof (cases "p \<le> 0")
  case True
  then show ?thesis using assms(2) by (simp add: mask_numbers_def rel_out_def)
next
  case False
  have "rel_out S (re_sub_from U NUM_RE (mask_repl R1 p) tx 0 g)
          (re_sub_from U NUM_RE (mask_repl R2 p) tx 0 h)"
    by (rule sim_re_sub_from[OF sim_mask_repl[OF assms(1)] assms(2)])
  then show ?thesis using False by (simp add: mask_numbers_def re_sub_def)
qed

lemma sim_drop_loop:
  assumes "rng_sim S R1 R2" and "S g h"
  shows "rel_out S (drop_loop U R1 p fs out g) (drop_loop U R2 p fs out h)"
  using assms(2)
proof (induction fs arbitrary: out g h)
  case Nil
  then show ?case by (simp add: rel_out_def)
next
  case (Cons f fs)
  from sim_random[OF assms(1) Cons.prems]
  obtain x g1 h1 where x: "rng_random R1 g = (x, g1)" "rng_random R2 h = (x, h1)" "S g1 h1"
    by (rule rel_outE)
  show ?case using x Cons.IH[OF x(3)] by simp
qed

lemma sim_drop_fillers:
  assumes "rng_sim S R1 R2" and "S g h"
  shows "rel_out S (drop_fillers U R1 tx p g) (drop_fillers U R2 tx p h)"
proof (cases "p \<le> 0")
  case True
  then show ?thesis using assms(2) by (simp add: drop_fillers_def rel_out_def)
next
  case False
  from sim_drop_loop[OF assms, of U p FILLERS tx]
  obtain out g' h' where "drop_loop U R1 p FILLERS tx g = (out, g')"
    "drop_loop U R2 p FILLERS tx h = (out, h')" "S g' h'" by (rule rel_outE)
  then show ?thesis using False by (simp add: drop_fillers_def rel_out_def)
qed

lemma sim_jitter_loop:
  assumes "rng_sim S R1 R2" and "S g h"
  shows "rel_out S (jitter_loop R1 p tx acc g) (jitter_loop R2 p tx acc h)"
  using assms(2)
proof (induction tx arbitrary: acc g h)
  case Nil
  then show ?case by (simp add: rel_out_def)
next
  case (Cons ch rest)
  from sim_random[OF assms(1) Cons.prems]
  obtain x g1 h1 where x: "rng_random R1 g = (x, g1)" "rng_random R2 h = (x, h1)" "S g1 h1"
    by (rule rel_outE)
  from sim_random_choice[OF assms(1) x(3), of "[[ch, ch], [33, 63], [63, 33], [ch]]"]
  obtain c1 g2 h2 where c1: "random_choice R1 [[ch, ch], [33, 63], [63, 33], [ch]] g1 = (c1, g2)"
    "random_choice R2 [[ch, ch], [33, 63], [63, 33], [ch]] h1 = (c1, h2)" "S g2 h2"
    by (rule rel_outE)
  from sim_random_choice[OF assms(1) x(3), of "[[44, 32], [44], [59, 32]] :: ustr list"]
  obtain c2 g3 h3 where c2: "random_choice R1 ([[44, 32], [44], [59, 32]] :: ustr list) g1 = (c2, g3)"
    "random_choice R2 ([[44, 32], [44], [59, 32]] :: ustr list) h1 = (c2, h3)" "S g3 h3"
    by (rule rel_outE)
  consider (mark) "(ch = 63 \<or> ch = 33) \<and> x < p"
    | (comma) "\<not> (ch = 63 \<or> ch = 33) \<and> ch = 44 \<and> x < p"
    | (plain) "\<not> ((ch = 63 \<or> ch = 33) \<and> x < p) \<and> \<not> (ch = 44 \<and> x < p)" by blast
  then show ?case
  proof cases
    case mark
    show ?thesis
    proof (cases c1)
      case (Inl e)
      then show ?thesis using mark x c1 by (simp add: rel_out_def)
    next
      case (Inr s)
      then show ?thesis using mark x c1 Cons.IH[OF c1(3), of "acc @ [s]"] by simp
    qed
  next
    case comma
    show ?thesis
    proof (cases c2)
      case (Inl e)
      then show ?thesis using comma x c2 by (simp add: rel_out_def)
    next
      case (Inr s)
      then show ?thesis using comma x c2 Cons.IH[OF c2(3), of "acc @ [s]"] by simp
    qed
  next
    case plain
    show ?thesis using plain x Cons.IH[OF x(3), of "acc @ [[ch]]"]
        Cons.IH[OF Cons.prems, of "acc @ [[ch]]"] by auto
  qed
qed

lemma sim_punct_jitter:
  assumes "rng_sim S R1 R2" and "S g h"
  shows "rel_out S (punct_jitter R1 tx p g) (punct_jitter R2 tx p h)"
proof (cases "p \<le> 0")
  case True
  then show ?thesis using assms(2) by (simp add: punct_jitter_def rel_out_def)
next
  case False
  from sim_jitter_loop[OF assms, of p tx "[]"]
  obtain r g' h' where r: "jitter_loop R1 p tx [] g = (r, g')"
    "jitter_loop R2 p tx [] h = (r, h')" "S g' h'" by (rule rel_outE)
  show ?thesis using False r by (cases r) (simp_all add: punct_jitter_def rel_out_def)
qed

lemma sim_augment_dialogue:
  assumes "rng_sim S R1 R2" and "S g h"
  shows "rel_out S (augment_dialogue U R1 tx cfg g) (augment_dialogue U R2 tx cfg h)"
proof -
  from sim_replace_phrases[OF assms, of tx "p_syn cfg"]
  obtain r1 g1 h1 where r1: "replace_phrases R1 tx (p_syn cfg) g = (r1, g1)"
    "replace_phrases R2 tx (p_syn cfg) h = (r1, h1)" "S g1 h1" by (rule rel_outE)
  show ?thesis
  proof (cases r1)
    case (Inl e)
    then show ?thesis using r1 by (simp add: augment_dialogue_def rel_out_def)
  next
    case (Inr o1)
    from sim_mask_numbers[OF assms(1) r1(3), of U o1 "p_mask_num cfg"]
    obtain o2 g2 h2 where o2: "mask_numbers U R1 o1 (p_mask_num cfg) g1 = (o2, g2)"
      "mask_numbers U R2 o1 (p_mask_num cfg) h1 = (o2, h2)" "S g2 h2" by (rule rel_outE)
    from sim_drop_fillers[OF assms(1) o2(3), of U o2 "p_drop_filler cfg"]
    obtain o3 g3 h3 where o3: "drop_fillers U R1 o2 (p_drop_filler cfg) g2 = (o3, g3)"
      "drop_fillers U R2 o2 (p_drop_filler cfg) h2 = (o3, h3)" "S g3 h3" by (rule rel_outE)
    show ?thesis using Inr r1 o2 o3 sim_punct_jitter[OF assms(1) o3(3), of o3 "p_punct cfg"]
      by (simp add: augment_dialogue_def)
  qed
qed

lemma sim_sample_indices:
  assumes "rng_sim S R1 R2" and "S g h"
  shows "rel_out S (sample_indices R1 n m g) (sample_indices R2 n m h)"
  using assms(2)
proof (induction m arbitrary: g h)
  case 0
  then show ?case by (simp add: rel_out_def)
next
  case (Suc m)
  from sim_randrange[OF assms(1) Suc.prems, of n]
  obtain r g1 h1 where r: "randrange R1 n g = (r, g1)" "randrange R2 n h = (r, h1)" "S g1 h1"
    by (rule rel_outE)
  show ?case
  proof (cases r)
    case (Inl e)
    then show ?thesis using r by (simp add: rel_out_def)
  next
    case (Inr k)
    from Suc.IH[OF r(3)]
    obtain rs g2 h2 where rs: "sample_indices R1 n m g1 = (rs, g2)"
      "sample_indices R2 n m h1 = (rs, h2)" "S g2 h2" by (rule rel_outE)
    show ?thesis using Inr r rs by (cases rs) (simp_all add: rel_out_def)
  qed
qed

lemma sim_augment_rows:
  assumes "rng_sim S R1 R2" and "S g h"
  shows "rel_out S (augment_rows U R1 cfg rws i idx acc g) (augment_rows U R2 cfg rws i idx acc h)"
  using assms(2)
proof (induction idx arbitrary: i acc g h)
  case Nil
  then show ?case by (simp add: rel_out_def)
next
  case (Cons src_idx later)
  show ?case
  proof (cases "iloc rws src_idx")
    case (Inl e)
    then show ?thesis using Cons.prems by (simp add: rel_out_def)
  next
    case (Inr rw)
    show ?thesis
    proof (cases "row_get rw (ascii ''dialogue'')")
      case (Inl e)
      then show ?thesis using Inr Cons.prems by (simp add: rel_out_def)
    next
      case dlg: (Inr dlg)
      from sim_augment_dialogue[OF assms(1) Cons.prems, of U dlg cfg]
      obtain a g1 h1 where a: "augment_dialogue U R1 dlg cfg g = (a, g1)"
        "augment_dialogue U R2 dlg cfg h = (a, h1)" "S g1 h1" by (rule rel_outE)
      show ?thesis
      proof (cases a)
        case (Inl e)
        then show ?thesis using Inr dlg a by (simp add: rel_out_def)
      next
        case aug: (Inr aug)
        show ?thesis using Inr dlg a aug Cons.IH[OF a(3)] a(3)
          by (auto simp: rel_out_def split: sum.splits)
      qed
    qed
  qed
qed


lemma sim_run_augment:
  assumes "rng_sim S R1 R2" and "S (rng_seed R1 sd) (rng_seed R2 sd)"
  shows "rel_out S (run_augment U R1 df path factor sd limit)
           (run_augment U R2 df path factor sd limit)"
proof (cases "check_columns required_cols (columns df) path")
  case (Some e)
  then show ?thesis using assms(2) by (simp add: run_augment_def rel_out_def)
next
  case None
  let ?df = "apply_limit limit df"
  let ?n = "length (rows ?df)"
  show ?thesis
  proof (cases "compute_aug_count ?n factor")
    case (Inl e)
    then show ?thesis using None assms(2) by (simp add: run_augment_def rel_out_def)
  next
    case (Inr m)
    show ?thesis
    proof (cases "m = 0")
      case True
      then show ?thesis using None Inr assms(2)
        by (simp add: run_augment_def rel_out_def Let_def)
    next
      case False
      from sim_sample_indices[OF assms, of ?n "nat m"]
      obtain si g1 h1 where si: "sample_indices R1 ?n (nat m) (rng_seed R1 sd) = (si, g1)"
        "sample_indices R2 ?n (nat m) (rng_seed R2 sd) = (si, h1)" "S g1 h1" by (rule rel_outE)
      show ?thesis
      proof (cases si)
        case (Inl e)
        then show ?thesis using None Inr False si by (simp add: run_augment_def rel_out_def)
      next
        case idx: (Inr idx)
        from sim_augment_rows[OF assms(1) si(3), of U "default_config sd" "rows ?df" 0 idx "[]"]
        obtain ar g2 h2 where ar:
          "augment_rows U R1 (default_config sd) (rows ?df) 0 idx [] g1 = (ar, g2)"
          "augment_rows U R2 (default_config sd) (rows ?df) 0 idx [] h1 = (ar, h2)" "S g2 h2"
          by (rule rel_outE)
        show ?thesis using None Inr False si idx ar
          by (cases ar) (simp_all add: run_augment_def rel_out_def Let_def)
      qed
    qed
  qed
qed

lemma logged_rng_sim: "rng_sim (\<lambda>g h. fst h = g) counter_rng logged_rng"
  by (simp add: rng_sim_def rel_out_def counter_rng_def logged_rng_def split: prod.splits)

text \<open>
  Claim C1.  Two runs with the same input frame, input path, factor, seed and limit, each
  on its own generator, give the same result whenever seeding with that seed puts the two
  generators in states that deliver the same draws: the same outcome (the frame written,
  original rows and synthetic rows with their augmented dialogues, and the returned pair,
  or the same error), the same sampled indices, and final states that again deliver the
  same draws.  The run seeds the generator once, before anything else, and every draw is
  made from the state that the draw before it left.
\<close>

theorem run_augment_deterministic:
  assumes "rng_sim S R1 R2" and "S (rng_seed R1 sd) (rng_seed R2 sd)"
  shows "fst (run_augment U R1 df path factor sd limit) =
           fst (run_augment U R2 df path factor sd limit) \<and>
         written (run_augment U R1 df path factor sd limit) =
           written (run_augment U R2 df path factor sd limit) \<and>
         S (snd (run_augment U R1 df path factor sd limit))
           (snd (run_augment U R2 df path factor sd limit)) \<and>
         (\<forall>n m. fst (sample_indices R1 n m (rng_seed R1 sd)) =
                  fst (sample_indices R2 n m (rng_seed R2 sd)))"
proof -
  have r: "rel_out S (run_augment U R1 df path factor sd limit)
             (run_augment U R2 df path factor sd limit)"
    by (rule sim_run_augment[OF assms])
  have s: "fst (sample_indices R1 n m (rng_seed R1 sd)) =
           fst (sample_indices R2 n m (rng_seed R2 sd))" for n m
    using sim_sample_indices[OF assms, of n m] by (simp add: rel_out_def)
  show ?thesis using r s by (simp add: rel_out_def written_def)
qed

subsection \<open>Runs on the example inputs\<close>

lemmas rx_eval = re_sub_str_def re_sub_def re_sub_from.simps finditer_def finditer_from.simps
  match_at_def in_class_def is_word_def uc_alnum_def run_len_def word_before_def word_at_def
  ucd_sample_def

lemma keys_sorted_eq:
  "keys_sorted =
     [[51032, 49324, 32, 49440, 49373, 45784],
      [50504, 45397, 54616, 49464, 50836], [44048, 49324, 54633, 45768, 45796],
      [44256, 47577, 49845, 45768, 45796],
      [51032, 49324, 45784], [44536, 47088, 45936], [54616, 51648, 47564],
      [50504, 45397], [48120, 50504], [51396, 49569], [48337, 50896], [44160, 51652],
      [48177, 49888], [51221, 47568]]"
  by (simp add: keys_sorted_def PHRASE_SYNONYMS_def)

text \<open>The dialogue \<open>hi\<close> has no phrase, number, filler or punctuation to act on.\<close>

lemma augment_hi:
  "augment_dialogue ucd_sample counter_rng [104, 105] (default_config 0) (Suc 0) =
     (Inr [104, 105], 22)"
  by (simp add: augment_dialogue_def replace_phrases_def keys_sorted_eq default_config_def
      dbl_0_2_def dbl_0_3_def dbl_0_4_def mask_numbers_def NUM_RE_def drop_fillers_def FILLERS_def punct_jitter_def counter_rng_def
      filler_re_def SPACES_RE_def strip_def ascii_def rx_eval)

lemma run_ex_frame:
  "run_augment ucd_sample counter_rng ex_frame (ascii ''in.csv'') (Fl (1/2)) 0 None =
     (Inr (ex_out, (2, 3)), 22)"
proof -
  have 1: "set required_cols \<subseteq> set (columns ex_frame)" by (simp add: ex_frame_def)
  have 2: "apply_limit None ex_frame = ex_frame" by (simp add: apply_limit_def)
  have 3: "compute_aug_count (length (rows ex_frame)) (Fl (1/2)) = Inr 1"
    using compute_aug_count_two_rows[of "rows ex_frame"] by (simp add: ex_frame_def)
  have 4: "sample_indices counter_rng (length (rows ex_frame)) (nat 1) (rng_seed counter_rng 0)
             = (Inr [0], Suc 0)"
    by (simp add: randrange_def counter_rng_def ex_frame_def)
  have 5: "augment_rows ucd_sample counter_rng (default_config 0) (rows ex_frame) 0 [0] [] (Suc 0)
             = (Inr [mk_row (ascii ''a_aug0'') (ascii ''hi'') (ascii ''s'') (ascii ''t'')], 22)"
    by (simp add: ex_frame_def mk_row_def iloc_def row_get_def augment_hi
        ensure_unique_fname_def str_nat.simps ascii_def)
  show ?thesis
    using run_augment_okI[OF 1 2 3 _ 4 5]
    by (simp add: concat_frames_def ex_frame_def ex_out_def required_cols_def mk_row_def ascii_def)
qed

lemma run_ex_frame2:
  "run_augment ucd_sample counter_rng ex_frame2 (ascii ''in.csv'') (Fl (1/2)) 0 None =
     (Inr (ex_out2, (2, 3)), 22)"
proof -
  have 1: "set required_cols \<subseteq> set (columns ex_frame2)" by (simp add: ex_frame2_def)
  have 2: "apply_limit None ex_frame2 = ex_frame2" by (simp add: apply_limit_def)
  have 3: "compute_aug_count (length (rows ex_frame2)) (Fl (1/2)) = Inr 1"
    using compute_aug_count_two_rows[of "rows ex_frame2"] by (simp add: ex_frame2_def)
  have 4: "sample_indices counter_rng (length (rows ex_frame2)) (nat 1) (rng_seed counter_rng 0)
             = (Inr [0], Suc 0)"
    by (simp add: randrange_def counter_rng_def ex_frame2_def)
  have 5: "augment_rows ucd_sample counter_rng (default_config 0) (rows ex_frame2) 0 [0] [] (Suc 0)
             = (Inr [mk_row (ascii ''a_aug0'') (ascii ''hi'') (ascii ''s'') (ascii ''t'')], 22)"
    by (simp add: ex_frame2_def mk_row_def iloc_def row_get_def augment_hi
        ensure_unique_fname_def str_nat.simps ascii_def)
  show ?thesis
    using run_augment_okI[OF 1 2 3 _ 4 5]
    by (simp add: concat_frames_def ex_frame2_def ex_out2_def required_cols_def mk_row_def ascii_def)
qed

lemma frame_ok_ex_frame2: "frame_ok ex_frame2"
  by (simp add: frame_ok_def ex_frame2_def mk_row_def required_cols_def)

lemma str_nat_nonempty: "str_nat n \<noteq> []"
  by (simp add: str_nat.simps[of n])

lemma ensure_unique_fname_length: "4 < length (ensure_unique_fname fn k)"
  using str_nat_nonempty[of k] by (simp add: ensure_unique_fname_def ascii_def)

theorem run_augment_deterministic_witness:
  "rng_sim (\<lambda>g h. fst h = g) counter_rng logged_rng \<and>
   fst (rng_seed logged_rng 0) = rng_seed counter_rng 0 \<and>
   fst (run_augment ucd_sample logged_rng ex_frame (ascii ''in.csv'') (Fl (1/2)) 0 None) =
     Inr (ex_out, (2, 3)) \<and>
   fst (snd (run_augment ucd_sample logged_rng ex_frame (ascii ''in.csv'') (Fl (1/2)) 0 None)) = 22 \<and>
   fst (sample_indices logged_rng 2 1 (rng_seed logged_rng 0)) = Inr [0]"
proof -
  have 1: "fst (rng_seed logged_rng 0) = rng_seed counter_rng 0"
    by (simp add: counter_rng_def logged_rng_def)
  note t = run_augment_deterministic[of "\<lambda>g h. fst h = g" counter_rng logged_rng 0
      ucd_sample ex_frame "ascii ''in.csv''" "Fl (1/2)" None, OF logged_rng_sim 1]
  have 2: "sample_indices counter_rng 2 1 (rng_seed counter_rng 0) = (Inr [0], Suc 0)"
    by (simp add: randrange_def counter_rng_def)
  have a: "fst (run_augment ucd_sample logged_rng ex_frame (ascii ''in.csv'') (Fl (1/2)) 0 None) =
        Inr (ex_out, (2, 3))"
    using t run_ex_frame by simp
  have b: "fst (snd (run_augment ucd_sample logged_rng ex_frame (ascii ''in.csv'') (Fl (1/2)) 0 None)) = 22"
    using t run_ex_frame by simp
  have "fst (sample_indices counter_rng 2 1 (rng_seed counter_rng 0)) =
        fst (sample_indices logged_rng 2 1 (rng_seed logged_rng 0))"
    using t by blast
  then have c: "fst (sample_indices logged_rng 2 1 (rng_seed logged_rng 0)) = Inr [0]"
    by (simp only: 2 fst_conv)
  show ?thesis using logged_rng_sim 1 a b c by (intro conjI)
qed

theorem run_augment_appends_witness:
  "\<exists>synth. written (run_augment ucd_sample counter_rng ex_frame2 (ascii ''in.csv'') (Fl (1/2)) 0 None) =
      Some \<lparr>columns = required_cols, rows = rows ex_frame2 @ synth\<rparr> \<and> length synth = 1"
proof -
  have 1: "set required_cols \<subseteq> set (columns ex_frame2)" by (simp add: ex_frame2_def)
  have 2: "rows ex_frame2 = rows (apply_limit None ex_frame2)" by (simp add: apply_limit_def)
  have 3: "rows ex_frame2 \<noteq> []" by (simp add: ex_frame2_def)
  have 4: "compute_aug_count (length (rows ex_frame2)) (Fl (1/2)) = Inr (int 1)"
    using compute_aug_count_two_rows[of "rows ex_frame2"] by (simp add: ex_frame2_def)
  from run_augment_appends[OF counter_rng_ok frame_ok_ex_frame2 1 2 3 4,
      of ucd_sample "ascii ''in.csv''" 0]
  show ?thesis by (auto simp: ex_frame2_def)
qed

text \<open>
  Claim C4, at a failing input.  With factor \<open>0\<close> the run on the two rows of \<open>ex_frame2\<close>
  writes both rows and returns the pair \<open>(2, 0)\<close>: the second component is \<open>0\<close>, not the
  number of rows written.
\<close>

theorem run_augment_passthrough_count:
  "run_augment ucd_sample counter_rng ex_frame2 (ascii ''in.csv'') (Fl 0) 42 None =
     (Inr (ex_frame2, (2, 0)), 42) \<and> length (rows ex_frame2) = 2"
proof -
  have 1: "set required_cols \<subseteq> set (columns ex_frame2)" by (simp add: ex_frame2_def)
  have 2: "compute_aug_count (length (rows (apply_limit None ex_frame2))) (Fl 0) = Inr 0"
    by (simp add: compute_aug_count_finite)
  show ?thesis using run_augment_passI[OF 1 2, of ucd_sample counter_rng "ascii ''in.csv''" 42]
    by (simp add: apply_limit_def ex_frame2_def counter_rng_def)
qed

subsection \<open>Identifiers of the output\<close>

text \<open>
  Claim C8 as stated fails.  The identifiers \<open>a\<close> and \<open>a_aug0\<close> of \<open>ex_frame\<close> are distinct;
  the run samples the row \<open>a\<close> for the synthetic row of index \<open>0\<close> and names it \<open>a_aug0\<close>,
  which the second original row already has.
\<close>

theorem output_ids_counterexample:
  "distinct (frame_ids ex_frame) \<and>
   written (run_augment ucd_sample counter_rng ex_frame (ascii ''in.csv'') (Fl (1/2)) 0 None) =
     Some ex_out \<and>
   \<not> distinct (frame_ids ex_out)"
  by (simp add: run_ex_frame written_def)
     (simp add: frame_ids_def ex_frame_def ex_out_def mk_row_def row_get_def ascii_def)

text \<open>
  Claim C8, amended.  When the identifiers of the rows considered are pairwise distinct
  and none of them is \<open>{id}_aug{k}\<close> for an identifier \<open>id\<close> among them and an index \<open>k\<close> below
  the number \<open>m\<close> of synthetic rows, the identifiers of the frame written are pairwise
  distinct.
\<close>

theorem output_ids_distinct:
  assumes "rng_ok R" and "frame_ok df_in" and "set required_cols \<subseteq> set (columns df_in)"
    and "src = apply_limit limit df_in"
    and "compute_aug_count (length (rows src)) factor = Inr (int m)"
    and "distinct (frame_ids src)"
    and "\<forall>fn k. Inr fn \<in> set (frame_ids src) \<and> k < m \<longrightarrow>
           Inr (ensure_unique_fname fn k) \<notin> set (frame_ids src)"
    and "written (run_augment U R df_in input_csv factor sd limit) = Some out"
  shows "distinct (frame_ids out)"
proof (cases "m = 0")
  case True
  then have "compute_aug_count (length (rows (apply_limit limit df_in))) factor = Inr 0"
    using assms(4,5) by simp
  from run_augment_passI[OF assms(3) this, of U R input_csv sd] assms(8)
  have "out = src" by (simp add: written_def assms(4))
  then show ?thesis using assms(6) by simp
next
  case False
  then have mpos: "0 < m" by simp
  have nonempty: "rows src \<noteq> []"
  proof
    assume e: "rows src = []"
    then have c: "compute_aug_count 0 factor = Inr (int m)" "int m \<noteq> 0"
      using mpos assms(5) by auto
    from empty_rows_raise[OF assms(3) e[unfolded assms(4)] c, of U R input_csv sd] assms(8)
    show False by (simp add: written_def)
  qed
  have src_rows: "rows src = rows (apply_limit limit df_in)" using assms(4) by simp
  from run_augment_structure[OF assms(1,2,3) src_rows nonempty assms(5) mpos, of U input_csv sd]
  obtain idx synth g2 where s:
    "run_augment U R df_in input_csv factor sd limit =
       (Inr (\<lparr>columns = columns df_in, rows = rows src @ synth\<rparr>,
             (length (rows src), length (rows src) + m)), g2)"
    "length idx = m" "length synth = m"
    "\<forall>j < m. idx ! j < length (rows src) \<and>
       synthetic_row U R (default_config sd) (rows src ! (idx ! j)) j (synth ! j)"
    by blast
  have out: "out = \<lparr>columns = columns df_in, rows = rows src @ synth\<rparr>"
    using assms(8) by (simp add: s(1) written_def)
  let ?new = "map (\<lambda>r. row_get r (ascii ''fname'')) synth"
  have ids: "frame_ids out = frame_ids src @ ?new"
    by (simp add: out frame_ids_def)
  have new_id: "\<exists>fn. Inr fn \<in> set (frame_ids src) \<and> ?new ! j = Inr (ensure_unique_fname fn j)"
    if "j < m" for j
  proof -
    have lt: "idx ! j < length (rows src)"
      and syn: "synthetic_row U R (default_config sd) (rows src ! (idx ! j)) j (synth ! j)"
      using s(4) that by simp_all
    from synthetic_row_fields(4)[OF syn] obtain fn where fn:
      "row_get (rows src ! (idx ! j)) (ascii ''fname'') = Inr fn"
      "row_get (synth ! j) (ascii ''fname'') = Inr (ensure_unique_fname fn j)" by blast
    have "frame_ids src ! (idx ! j) = Inr fn" using lt fn(1) by (simp add: frame_ids_def)
    moreover have "idx ! j < length (frame_ids src)" using lt by (simp add: frame_ids_def)
    ultimately have "Inr fn \<in> set (frame_ids src)" by (metis nth_mem)
    then show ?thesis using fn(2) that s(3) by auto
  qed
  have len: "length ?new = m" using s(3) by simp
  have d_new: "distinct ?new"
    unfolding distinct_conv_nth
  proof (intro allI impI)
    fix i j assume "i < length ?new" "j < length ?new" "i \<noteq> j"
    then have i: "i < m" and j: "j < m" using len by simp_all
    from new_id[OF i] new_id[OF j] obtain fi fj where
      "?new ! i = Inr (ensure_unique_fname fi i)" "?new ! j = Inr (ensure_unique_fname fj j)" by blast
    then show "?new ! i \<noteq> ?new ! j" using ensure_unique_fname_inj[of fi i fj j] \<open>i \<noteq> j\<close> by auto
  qed
  have disj: "set (frame_ids src) \<inter> set ?new = {}"
  proof (rule ccontr)
    assume "set (frame_ids src) \<inter> set ?new \<noteq> {}"
    then obtain y where y: "y \<in> set (frame_ids src)" "y \<in> set ?new" by blast
    from y(2) obtain j where j: "j < length ?new" "?new ! j = y" by (metis in_set_conv_nth)
    then have jm: "j < m" using len by simp
    from new_id[OF jm] obtain fn where fn: "Inr fn \<in> set (frame_ids src)"
      "?new ! j = Inr (ensure_unique_fname fn j)" by blast
    have "Inr (ensure_unique_fname fn j) \<notin> set (frame_ids src)" using assms(7) fn(1) jm by blast
    then show False using y(1) j(2) fn(2) by simp
  qed
  show ?thesis using ids assms(6) d_new disj by simp
qed


theorem output_ids_distinct_witness:
  "distinct (frame_ids ex_out2)"
proof -
  have 1: "set required_cols \<subseteq> set (columns ex_frame2)" by (simp add: ex_frame2_def)
  have 2: "ex_frame2 = apply_limit None ex_frame2" by (simp add: apply_limit_def)
  have 3: "compute_aug_count (length (rows ex_frame2)) (Fl (1/2)) = Inr (int 1)"
    using compute_aug_count_two_rows[of "rows ex_frame2"] by (simp add: ex_frame2_def)
  have ids: "frame_ids ex_frame2 = [Inr [97], Inr [98]]"
    by (simp add: frame_ids_def ex_frame2_def mk_row_def row_get_def ascii_def)
  have 4: "distinct (frame_ids ex_frame2)" by (simp add: ids)
  have 5: "\<forall>fn k. Inr fn \<in> set (frame_ids ex_frame2) \<and> k < (1::nat) \<longrightarrow>
           Inr (ensure_unique_fname fn k) \<notin> set (frame_ids ex_frame2)"
  proof (intro allI impI)
    fix fn :: ustr and k :: nat
    assume "Inr fn \<in> set (frame_ids ex_frame2) \<and> k < 1"
    have "ensure_unique_fname fn k \<noteq> [97]" "ensure_unique_fname fn k \<noteq> [98]"
      using ensure_unique_fname_length[of fn k] by auto
    then show "Inr (ensure_unique_fname fn k) \<notin> set (frame_ids ex_frame2)"
      by (simp add: ids)
  qed
  have 6: "written (run_augment ucd_sample counter_rng ex_frame2 (ascii ''in.csv'') (Fl (1/2)) 0 None)
             = Some ex_out2"
    by (simp add: run_ex_frame2 written_def)
  show ?thesis
    by (rule output_ids_distinct[OF counter_rng_ok frame_ok_ex_frame2 1 2 3 4 5 6])
qed

subsection \<open>Matches of the patterns\<close>

lemma run_ends_mem: "e \<in> set (run_ends i k) \<longleftrightarrow> i < e \<and> e \<le> i + k"
proof (induction k)
  case 0
  show ?case by simp
next
  case (Suc k)
  have "e \<in> set (run_ends i (Suc k)) \<longleftrightarrow> e = i + Suc k \<or> e \<in> set (run_ends i k)" by simp
  also have "\<dots> \<longleftrightarrow> e = i + Suc k \<or> (i < e \<and> e \<le> i + k)" unfolding Suc.IH ..
  also have "\<dots> \<longleftrightarrow> i < e \<and> e \<le> i + Suc k" by arith
  finally show ?case .
qed

lemma run_len_le: "run_len U cs tx i \<le> length tx - i"
proof -
  have "length (takeWhile (in_class U cs) (drop i tx)) \<le> length (drop i tx)"
    by (rule length_takeWhile_le)
  then show ?thesis by (simp add: run_len_def)
qed

lemma ends_cat:
  "e \<in> set (ends U (RCat r1 r2) tx i) \<longleftrightarrow> (\<exists>a \<in> set (ends U r1 tx i). e \<in> set (ends U r2 tx a))"
  by auto

lemma ends_opt: "e \<in> set (ends U (ROpt r) tx i) \<longleftrightarrow> e \<in> set (ends U r tx i) \<or> e = i"
  by auto

lemma ends_plus:
  assumes "e \<in> set (ends U (RPlus cs) tx i)" and "i \<le> length tx"
  shows "i < e \<and> e \<le> length tx"
proof -
  from assms(1) have "i < e \<and> e \<le> i + run_len U cs tx i" by (simp add: run_ends_mem)
  then show ?thesis using run_len_le[of U cs tx i] assms(2) by arith
qed

lemma ends_in: "e \<in> set (ends U (RIn cs) tx i) \<Longrightarrow> i < length tx \<and> e = Suc i"
  by (auto split: if_splits)

lemma ends_notahead:
  "e \<in> set (ends U (RNotAhead cs) tx i) \<longleftrightarrow>
     e = i \<and> \<not> (i < length tx \<and> in_class U cs (tx ! i))"
  by auto

lemma ends_notbehind:
  "e \<in> set (ends U (RNotBehind cs) tx i) \<longleftrightarrow>
     e = i \<and> \<not> (0 < i \<and> i \<le> length tx \<and> in_class U cs (tx ! (i - 1)))"
  by auto

lemma NUM_RE_ends:
  assumes "e \<in> set (ends U NUM_RE tx i)" and "i \<le> length tx"
  shows "i < e \<and> e \<le> length tx \<and>
         \<not> (0 < i \<and> in_class U [Chr 35, ClsW] (tx ! (i - 1))) \<and>
         \<not> (e < length tx \<and> in_class U [Chr 35, ClsW] (tx ! e))"
proof -
  let ?la = "RNotAhead [Chr 35, ClsW]"
  let ?grp = "RCat (RIn [Chr 46, Chr 44]) (RPlus [ClsD])"
  from assms(1) obtain i' where i': "i' \<in> set (ends U (RNotBehind [Chr 35, ClsW]) tx i)"
    "e \<in> set (ends U (RCat (RPlus [ClsD]) (RCat (ROpt ?grp) ?la)) tx i')"
    unfolding NUM_RE_def ends_cat[of e U "RNotBehind [Chr 35, ClsW]"] by blast
  from i'(1) have ii: "i' = i"
    and behind: "\<not> (0 < i \<and> in_class U [Chr 35, ClsW] (tx ! (i - 1)))"
    using assms(2) unfolding ends_notbehind by simp_all
  from i'(2) obtain a where a: "a \<in> set (ends U (RPlus [ClsD]) tx i)"
    "e \<in> set (ends U (RCat (ROpt ?grp) ?la) tx a)"
    unfolding ii ends_cat[of e U "RPlus [ClsD]"] by blast
  have a_rng: "i < a \<and> a \<le> length tx" by (rule ends_plus[OF a(1) assms(2)])
  from a(2) obtain b where b: "b \<in> set (ends U (ROpt ?grp) tx a)" "e \<in> set (ends U ?la tx b)"
    unfolding ends_cat[of e U "ROpt ?grp"] by blast
  have b_rng: "a \<le> b \<and> b \<le> length tx"
  proof (cases "b = a")
    case True
    then show ?thesis using a_rng by simp
  next
    case False
    then have "b \<in> set (ends U ?grp tx a)" using b(1) unfolding ends_opt by simp
    then obtain c where c: "c \<in> set (ends U (RIn [Chr 46, Chr 44]) tx a)"
      "b \<in> set (ends U (RPlus [ClsD]) tx c)"
      unfolding ends_cat[of b U "RIn [Chr 46, Chr 44]"] by blast
    have c': "a < length tx \<and> c = Suc a" by (rule ends_in[OF c(1)])
    then have "c \<le> length tx" by simp
    from ends_plus[OF c(2) this] c' show ?thesis by simp
  qed
  from b(2) have "e = b" "\<not> (b < length tx \<and> in_class U [Chr 35, ClsW] (tx ! b))"
    unfolding ends_notahead by simp_all
  then show ?thesis using behind a_rng b_rng by simp
qed

lemma match_at_Some: "match_at U r tx i = Some e \<Longrightarrow> e \<in> set (ends U r tx i)"
  by (auto simp: match_at_def split: list.splits)

lemma finditer_from_spans:
  "(a, b) \<in> set (finditer_from U r tx i) \<Longrightarrow>
     i \<le> a \<and> a \<le> length tx \<and> match_at U r tx a = Some b"
proof (induction U r tx i rule: finditer_from.induct)
  case (1 U r tx i)
  show ?case
  proof (cases "length tx < i")
    case True
    then show ?thesis using "1.prems" by (simp add: finditer_from.simps[of U r tx i])
  next
    case le: False
    show ?thesis
    proof (cases "match_at U r tx i")
      case None
      then show ?thesis using "1.prems" "1.IH"(1)[OF le None] le
        by (auto simp: finditer_from.simps[of U r tx i] split: if_splits)
    next
      case (Some e)
      then show ?thesis using "1.prems" "1.IH"(2)[OF le Some] "1.IH"(3)[OF le Some] le
        by (auto simp: finditer_from.simps[of U r tx i] split: if_splits)
    qed
  qed
qed


lemma finditer_from_start:
  assumes "sp \<in> set (finditer_from U r tx i)"
  shows "i \<le> fst sp"
  using finditer_from_spans[of "fst sp" "snd sp" U r tx i] assms by simp

lemma mask_spans_step:
  assumes "i < length tx" and "\<forall>sp \<in> set sps. Suc i \<le> fst (fst sp)"
  shows "mask_spans tx i sps = tx ! i # mask_spans tx (Suc i) sps"
proof (cases sps)
  case Nil
  then show ?thesis using assms(1) by (simp add: Cons_nth_drop_Suc)
next
  case (Cons sp rest)
  obtain a b m where sp: "sp = ((a, b), m)" by (cases sp) auto
  have a: "Suc i \<le> a" using assms(2) Cons sp by simp
  then obtain d where d: "a - i = Suc d" "a - Suc i = d" by (cases "a - i") auto
  have "take (a - i) (drop i tx) = tx ! i # take (a - Suc i) (drop (Suc i) tx)"
    using assms(1) d by (simp add: Cons_nth_drop_Suc[symmetric])
  then show ?thesis using Cons sp by simp
qed

lemma zip_spans_start:
  assumes "\<forall>sp \<in> set sps. k \<le> fst sp"
  shows "\<forall>sp \<in> set (zip sps cs). k \<le> fst (fst sp)"
proof
  fix sp assume sp: "sp \<in> set (zip sps cs)"
  obtain x y where xy: "sp = (x, y)" by (cases sp)
  then have "x \<in> set sps" using sp set_zip_leftD by fastforce
  then show "k \<le> fst (fst sp)" using assms xy by simp
qed

lemma re_sub_from_mask_spans:
  assumes "progresses U r tx"
  shows "\<exists>cs. length cs = length (finditer_from U r tx i) \<and>
        fst (re_sub_from U r (mask_repl R p) tx i g) =
          mask_spans tx i (zip (finditer_from U r tx i) cs)"
proof (induction "Suc (length tx) - i" arbitrary: i g rule: less_induct)
  case less
  note rs = re_sub_from.simps[of U r "mask_repl R p" tx i g]
  note fi = finditer_from.simps[of U r tx i]
  show ?case
  proof (cases "length tx < i")
    case True
    have "finditer_from U r tx i = []" using True by (simp add: fi)
    moreover have "re_sub_from U r (mask_repl R p) tx i g = ([], g)" using True by (simp add: rs)
    ultimately show ?thesis using True by simp
  next
    case le: False
    show ?thesis
    proof (cases "match_at U r tx i")
      case None
      show ?thesis
      proof (cases "i < length tx")
        case True
        have "Suc (length tx) - Suc i < Suc (length tx) - i" using True by simp
        from less[OF this, of g] obtain cs where cs:
          "length cs = length (finditer_from U r tx (Suc i))"
          "fst (re_sub_from U r (mask_repl R p) tx (Suc i) g) =
             mask_spans tx (Suc i) (zip (finditer_from U r tx (Suc i)) cs)" by blast
        have st: "\<forall>sp \<in> set (zip (finditer_from U r tx (Suc i)) cs). Suc i \<le> fst (fst sp)"
          by (rule zip_spans_start) (use finditer_from_start in blast)
        have f: "finditer_from U r tx i = finditer_from U r tx (Suc i)"
          using le None True by (simp add: fi)
        have "fst (re_sub_from U r (mask_repl R p) tx i g) =
                tx ! i # fst (re_sub_from U r (mask_repl R p) tx (Suc i) g)"
          using le None True by (simp add: rs split: prod.splits)
        also have "\<dots> = mask_spans tx i (zip (finditer_from U r tx (Suc i)) cs)"
          unfolding cs(2) using mask_spans_step[OF True st] by simp
        finally show ?thesis using cs(1) f by auto
      next
        case False
        have "finditer_from U r tx i = []" using le None False by (simp add: fi)
        moreover have "re_sub_from U r (mask_repl R p) tx i g = ([], g)"
          using le None False by (simp add: rs)
        ultimately show ?thesis using False by simp
      qed
    next
      case (Some e)
      have ie: "i < e" using assms Some le unfolding progresses_def by auto
      obtain x g1 where x: "rng_random R g = (x, g1)" by (cases "rng_random R g")
      let ?m = "take (e - i) (drop i tx)"
      let ?s = "if x < p then ascii ''<NUM>'' else ?m"
      have repl: "mask_repl R p ?m g = (?s, g1)" using x by (simp add: mask_repl_def)
      have "Suc (length tx) - e < Suc (length tx) - i" using ie le by simp
      from less[OF this, of g1] obtain cs where cs:
        "length cs = length (finditer_from U r tx e)"
        "fst (re_sub_from U r (mask_repl R p) tx e g1) =
           mask_spans tx e (zip (finditer_from U r tx e) cs)" by blast
      have f: "finditer_from U r tx i = (i, e) # finditer_from U r tx e"
        using le Some ie by (simp add: fi)
      have "fst (re_sub_from U r (mask_repl R p) tx i g) =
              ?s @ fst (re_sub_from U r (mask_repl R p) tx e g1)"
        using le Some ie repl by (simp add: rs split: prod.splits)
      also have "\<dots> = mask_spans tx i (zip ((i, e) # finditer_from U r tx e) ((x < p) # cs))"
        unfolding cs(2) by simp
      finally show ?thesis using cs(1) f
        by (intro exI[of _ "(x < p) # cs"]) simp
    qed
  qed
qed

lemma re_sub_from_no_match:
  assumes "finditer_from U r tx i = []" and "i \<le> length tx"
  shows "re_sub_from U r repl tx i g = (drop i tx, g)"
  using assms
proof (induction "length tx - i" arbitrary: i rule: less_induct)
  case less
  note rs = re_sub_from.simps[of U r repl tx i g]
  note fi = finditer_from.simps[of U r tx i]
  have le: "\<not> length tx < i" using less.prems(2) by simp
  have none: "match_at U r tx i = None"
    using less.prems(1) le by (cases "match_at U r tx i") (simp_all add: fi)
  show ?case
  proof (cases "i < length tx")
    case True
    have f: "finditer_from U r tx (Suc i) = []" using less.prems(1) le none True by (simp add: fi)
    have "length tx - Suc i < length tx - i" using True by simp
    from less.hyps[OF this f] True have "re_sub_from U r repl tx (Suc i) g = (drop (Suc i) tx, g)"
      by simp
    then show ?thesis using le none True by (simp add: rs Cons_nth_drop_Suc)
  next
    case False
    have "re_sub_from U r repl tx i g = ([], g)" using le none False by (simp add: rs)
    moreover have "drop i tx = []" using False by simp
    ultimately show ?thesis by simp
  qed
qed

lemma NUM_RE_progresses: "progresses U NUM_RE tx"
  unfolding progresses_def using NUM_RE_ends match_at_Some by blast


subsection \<open>Number masking\<close>

lemma mask_repl_one:
  assumes "rng_ok R"
  shows "mask_repl R 1 m g = (ascii ''<NUM>'', snd (rng_random R g))"
proof -
  obtain x g1 where x: "rng_random R g = (x, g1)" by (cases "rng_random R g")
  then have "x < 1" using rng_ok_random[OF assms x] by simp
  then show ?thesis using x by (simp add: mask_repl_def)
qed

lemma mask_person_text:
  assumes "rng_ok R"
  shows "fst (mask_numbers ucd_sample R person_text 1 g) = person_masked"
  by (simp add: mask_numbers_def NUM_RE_def person_text_def person_masked_def
      mask_repl_one[OF assms] rx_eval ascii_def)

lemma NUM_RE_span:
  assumes "sp \<in> set (finditer U NUM_RE tx)"
  shows "fst sp < snd sp \<and> snd sp \<le> length tx \<and>
         \<not> (0 < fst sp \<and> in_class U [Chr 35, ClsW] (tx ! (fst sp - 1))) \<and>
         \<not> (snd sp < length tx \<and> in_class U [Chr 35, ClsW] (tx ! snd sp))"
proof -
  have "(fst sp, snd sp) \<in> set (finditer_from U NUM_RE tx 0)"
    using assms by (simp add: finditer_def)
  from finditer_from_spans[OF this]
  have "fst sp \<le> length tx" "match_at U NUM_RE tx (fst sp) = Some (snd sp)" by simp_all
  then show ?thesis using NUM_RE_ends[OF match_at_Some] by blast
qed

lemma in_class_digit: "in_class U [ClsD] c = uc_decimal U c"
  by (simp add: in_class_def)

lemma in_class_sep: "in_class U [Chr 46, Chr 44] c \<longleftrightarrow> c = 46 \<or> c = 44"
  by (simp add: in_class_def)

lemma in_class_tag_word: "in_class U [Chr 35, ClsW] c \<longleftrightarrow> c = 35 \<or> is_word U c"
  by (simp add: in_class_def)

lemma decimal_is_word: "uc_decimal U c \<Longrightarrow> is_word U c"
  by (simp add: is_word_def uc_alnum_def)

lemma ends_plus_chars:
  assumes "e \<in> set (ends U (RPlus cs) tx i)" and "i \<le> k" and "k < e"
  shows "in_class U cs (tx ! k)"
proof -
  let ?P = "in_class U cs"
  let ?xs = "drop i tx"
  from assms(1) have "e \<le> i + run_len U cs tx i" by (simp add: run_ends_mem)
  then have lt: "k - i < length (takeWhile ?P ?xs)" using assms(2,3) by (simp add: run_len_def)
  then have "takeWhile ?P ?xs ! (k - i) \<in> set (takeWhile ?P ?xs)" by (rule nth_mem)
  then have "?P (takeWhile ?P ?xs ! (k - i))" by (rule set_takeWhileD[THEN conjunct2])
  moreover have "takeWhile ?P ?xs ! (k - i) = ?xs ! (k - i)" using lt by (rule takeWhile_nth)
  moreover have "k - i < length ?xs" using lt length_takeWhile_le[of ?P ?xs] by (rule less_le_trans)
  then have "?xs ! (k - i) = tx ! k" using assms(2) by simp
  ultimately show ?thesis by simp
qed

lemma ends_in_char: "e \<in> set (ends U (RIn cs) tx i) \<Longrightarrow> in_class U cs (tx ! i)"
  by (auto split: if_splits)

lemma NUM_RE_shape:
  assumes "e \<in> set (ends U NUM_RE tx i)" and "i \<le> length tx"
  shows "number_shape U tx i e"
proof -
  let ?la = "RNotAhead [Chr 35, ClsW]"
  let ?grp = "RCat (RIn [Chr 46, Chr 44]) (RPlus [ClsD])"
  from assms(1) obtain i' where i': "i' \<in> set (ends U (RNotBehind [Chr 35, ClsW]) tx i)"
    "e \<in> set (ends U (RCat (RPlus [ClsD]) (RCat (ROpt ?grp) ?la)) tx i')"
    unfolding NUM_RE_def ends_cat[of e U "RNotBehind [Chr 35, ClsW]"] by blast
  from i'(1) have ii: "i' = i" unfolding ends_notbehind by simp
  from i'(2) obtain a where a: "a \<in> set (ends U (RPlus [ClsD]) tx i)"
    "e \<in> set (ends U (RCat (ROpt ?grp) ?la) tx a)"
    unfolding ii ends_cat[of e U "RPlus [ClsD]"] by blast
  have a_rng: "i < a \<and> a \<le> length tx" by (rule ends_plus[OF a(1) assms(2)])
  have d1: "\<forall>k. i \<le> k \<and> k < a \<longrightarrow> uc_decimal U (tx ! k)"
    using ends_plus_chars[OF a(1)] by (simp add: in_class_digit)
  from a(2) obtain b where b: "b \<in> set (ends U (ROpt ?grp) tx a)" "e \<in> set (ends U ?la tx b)"
    unfolding ends_cat[of e U "ROpt ?grp"] by blast
  from b(2) have eb: "e = b" unfolding ends_notahead by simp
  show ?thesis
  proof (cases "b = a")
    case True
    then show ?thesis unfolding number_shape_def using a_rng d1 eb by (intro exI[of _ a]) simp
  next
    case False
    then have "b \<in> set (ends U ?grp tx a)" using b(1) unfolding ends_opt by simp
    then obtain c where c: "c \<in> set (ends U (RIn [Chr 46, Chr 44]) tx a)"
      "b \<in> set (ends U (RPlus [ClsD]) tx c)"
      unfolding ends_cat[of b U "RIn [Chr 46, Chr 44]"] by blast
    have c': "a < length tx \<and> c = Suc a" by (rule ends_in[OF c(1)])
    have sep: "tx ! a = 46 \<or> tx ! a = 44" using ends_in_char[OF c(1)] by (simp add: in_class_sep)
    have "c \<le> length tx" using c' by simp
    from ends_plus[OF c(2) this] have b_rng: "c < b \<and> b \<le> length tx" .
    have d2: "\<forall>k. Suc a \<le> k \<and> k < b \<longrightarrow> uc_decimal U (tx ! k)"
      using ends_plus_chars[OF c(2)] c' by (simp add: in_class_digit)
    show ?thesis unfolding number_shape_def using a_rng d1 eb sep b_rng c' d2
      by (intro exI[of _ a]) simp
  qed
qed

lemma digit_run_unique:
  assumes "digit_run U tx a b" and "digit_run U tx c d"
    and "a \<le> k" "k < b" "c \<le> k" "k < d"
  shows "a = c \<and> b = d"
proof -
  have ac: "a = c"
  proof (rule ccontr)
    assume "a \<noteq> c"
    then consider "a < c" | "c < a" by arith
    then show False
    proof cases
      case 1
      then have "a \<le> c - 1" "c - 1 < b" "0 < c" using assms(4,5) by simp_all
      then have "uc_decimal U (tx ! (c - 1))" using assms(1) unfolding digit_run_def by blast
      then show False using assms(2) \<open>0 < c\<close> unfolding digit_run_def by blast
    next
      case 2
      then have "c \<le> a - 1" "a - 1 < d" "0 < a" using assms(3,6) by simp_all
      then have "uc_decimal U (tx ! (a - 1))" using assms(2) unfolding digit_run_def by blast
      then show False using assms(1) \<open>0 < a\<close> unfolding digit_run_def by blast
    qed
  qed
  have bd: "b = d"
  proof (rule ccontr)
    assume "b \<noteq> d"
    then consider "b < d" | "d < b" by arith
    then show False
    proof cases
      case 1
      then have "c \<le> b" "b < d" "b < length tx" using assms(2,4,5) unfolding digit_run_def by simp_all
      then have "uc_decimal U (tx ! b)" using assms(2) unfolding digit_run_def by blast
      then show False using assms(1) \<open>b < length tx\<close> unfolding digit_run_def by blast
    next
      case 2
      then have "a \<le> d" "d < b" "d < length tx" using assms(1,3,6) unfolding digit_run_def by simp_all
      then have "uc_decimal U (tx ! d)" using assms(1) unfolding digit_run_def by blast
      then show False using assms(2) \<open>d < length tx\<close> unfolding digit_run_def by blast
    qed
  qed
  show ?thesis using ac bd by simp
qed


lemma NUM_RE_no_overlap:
  assumes sep: "\<not> is_word U 46" "\<not> is_word U 44"
    and run: "digit_run U tx a b" and beside: "beside_word U tx a b"
    and sp: "e \<in> set (ends U NUM_RE tx i)" and le: "i \<le> length tx"
  shows "e \<le> a \<or> b \<le> i"
proof (rule ccontr)
  assume "\<not> (e \<le> a \<or> b \<le> i)"
  then have ov: "a < e" "i < b" by simp_all
  define k where "k = max a i"
  have k: "a \<le> k" "k < b" "i \<le> k" "k < e"
    using ov run unfolding k_def digit_run_def
    using NUM_RE_ends[OF sp le] by auto
  have dk: "uc_decimal U (tx ! k)" using run k(1,2) unfolding digit_run_def by blast
  have nd: "\<not> uc_decimal U c" if "c = 46 \<or> c = 44" for c
    using that sep decimal_is_word[of U c] by auto
  have ntw: "\<not> in_class U [Chr 35, ClsW] c" if "c = 46 \<or> c = 44" for c
    using that sep by (auto simp: in_class_tag_word)
  from NUM_RE_ends[OF sp le] have bounds: "i < e" "e \<le> length tx"
    and behind: "\<not> (0 < i \<and> in_class U [Chr 35, ClsW] (tx ! (i - 1)))"
    and ahead: "\<not> (e < length tx \<and> in_class U [Chr 35, ClsW] (tx ! e))" by simp_all
  have nbehind: "\<not> (0 < i \<and> uc_decimal U (tx ! (i - 1)))"
    using behind decimal_is_word[of U "tx ! (i - 1)"] by (auto simp: in_class_tag_word)
  have nahead: "\<not> (e < length tx \<and> uc_decimal U (tx ! e))"
    using ahead decimal_is_word[of U "tx ! e"] by (auto simp: in_class_tag_word)
  from NUM_RE_shape[OF sp le] obtain m where m: "i < m" "m \<le> e"
    "\<forall>j. i \<le> j \<and> j < m \<longrightarrow> uc_decimal U (tx ! j)"
    "m = e \<or> ((tx ! m = 46 \<or> tx ! m = 44) \<and> Suc m < e \<and>
        (\<forall>j. Suc m \<le> j \<and> j < e \<longrightarrow> uc_decimal U (tx ! j)))"
    unfolding number_shape_def by blast
  show False
  proof (cases "k < m")
    case True
    have right: "\<not> (m < length tx \<and> uc_decimal U (tx ! m))"
      using m(4) nahead nd[of "tx ! m"] by auto
    have "digit_run U tx i m"
      unfolding digit_run_def using m(1,2,3) bounds(2) nbehind right by auto
    from digit_run_unique[OF run this k(1,2) k(3) True] have eq: "a = i" "b = m" by simp_all
    have "\<not> (m < length tx \<and> in_class U [Chr 35, ClsW] (tx ! m))"
      using m(4) ahead ntw[of "tx ! m"] by auto
    then show False using beside behind unfolding beside_word_def eq by blast
  next
    case False
    then have "m \<noteq> e" using k(4) by auto
    then have s: "tx ! m = 46 \<or> tx ! m = 44" "Suc m < e"
      "\<forall>j. Suc m \<le> j \<and> j < e \<longrightarrow> uc_decimal U (tx ! j)" using m(4) by simp_all
    have "k \<noteq> m" using dk nd[OF s(1)] by auto
    then have km: "Suc m \<le> k" using False by simp
    have "digit_run U tx (Suc m) e"
      unfolding digit_run_def using s(2,3) bounds(2) nahead nd[OF s(1)] by auto
    from digit_run_unique[OF run this k(1,2) km k(4)] have eq: "a = Suc m" "b = e" by simp_all
    show False using beside ahead ntw[OF s(1)] unfolding beside_word_def eq by auto
  qed
qed

lemma NUM_RE_span_facts:
  assumes "sp \<in> set (finditer U NUM_RE tx)"
  shows "fst sp \<le> length tx \<and> snd sp \<in> set (ends U NUM_RE tx (fst sp))"
proof -
  have "(fst sp, snd sp) \<in> set (finditer_from U NUM_RE tx 0)"
    using assms by (simp add: finditer_def)
  from finditer_from_spans[OF this] show ?thesis using match_at_Some by simp
qed


text \<open>
  A stretch of the text that no span overlaps is copied as it stands: the result is the
  masking of what is before it, the stretch, and the masking of what is after it.
\<close>

lemma drop_split3:
  assumes "pos \<le> a" and "a \<le> b" and "b \<le> length tx"
  shows "drop pos tx = drop pos (take a tx) @ take (b - a) (drop a tx) @ drop b tx"
proof -
  have 1: "drop pos tx = drop pos (take a tx) @ drop a tx"
    using assms by (metis append_take_drop_id drop_append length_take min.absorb2 
        diff_is_0_eq drop0 le_trans)
  have 2: "drop a tx = take (b - a) (drop a tx) @ drop b tx"
    using assms by (metis append_take_drop_id drop_drop le_add_diff_inverse2)
  show ?thesis using 1 2 by simp
qed

lemma take_split3:
  assumes "pos \<le> a" and "a \<le> b" and "b \<le> i" and "i \<le> length tx"
  shows "take (i - pos) (drop pos tx) =
         drop pos (take a tx) @ take (b - a) (drop a tx) @ take (i - b) (drop b tx)"
proof -
  have len: "b \<le> length (take i tx)" using assms by simp
  have "take (i - pos) (drop pos tx) = drop pos (take i tx)"
    using assms by (simp add: drop_take)
  also have "\<dots> = drop pos (take a (take i tx)) @ take (b - a) (drop a (take i tx)) @
      drop b (take i tx)"
    by (rule drop_split3[OF assms(1,2) len])
  also have "take a (take i tx) = take a tx" using assms by (simp add: min_def)
  also have "take (b - a) (drop a (take i tx)) = take (b - a) (drop a tx)"
    using assms by (simp add: drop_take min_def)
  also have "drop b (take i tx) = take (i - b) (drop b tx)" by (simp add: drop_take)
  finally show ?thesis .
qed

lemma take_drop_take:
  assumes "i \<le> e" and "e \<le> a"
  shows "take (e - i) (drop i (take a tx)) = take (e - i) (drop i tx)"
  using assms by (simp add: drop_take min_def)

lemma spans_chain_right:
  assumes "spans_chain n pos sps" and "b \<le> pos" and "a < b"
  shows "filter (\<lambda>sp. snd (fst sp) \<le> a) sps = [] \<and> filter (\<lambda>sp. b \<le> fst (fst sp)) sps = sps"
  using assms(1,2)
proof (induction sps arbitrary: pos)
  case Nil
  then show ?case by simp
next
  case (Cons sp rest)
  obtain i e m where sp: "sp = ((i, e), m)" by (cases sp) auto
  have c: "pos \<le> i" "i < e" "spans_chain n e rest" using Cons.prems(1) sp by simp_all
  have "b \<le> e" using c Cons.prems(2) by simp
  from Cons.IH[OF c(3) this] show ?case using sp c Cons.prems(2) assms(3) by simp
qed

lemma mask_spans_split:
  assumes "spans_chain (length tx) pos sps" and "pos \<le> a" and "a < b" and "b \<le> length tx"
    and "\<forall>sp \<in> set sps. snd (fst sp) \<le> a \<or> b \<le> fst (fst sp)"
  shows "mask_spans tx pos sps =
         mask_spans (take a tx) pos (filter (\<lambda>sp. snd (fst sp) \<le> a) sps) @
         take (b - a) (drop a tx) @
         mask_spans tx b (filter (\<lambda>sp. b \<le> fst (fst sp)) sps)"
  using assms(1,2,5)
proof (induction sps arbitrary: pos)
  case Nil
  show ?case using drop_split3[of pos a b tx] Nil.prems(2) assms(3,4) by simp
next
  case (Cons sp rest)
  obtain i e m where sp: "sp = ((i, e), m)" by (cases sp) auto
  have c: "pos \<le> i" "i < e" "e \<le> length tx" "spans_chain (length tx) e rest"
    using Cons.prems(1) sp by simp_all
  have dis: "e \<le> a \<or> b \<le> i" using Cons.prems(3) sp by simp
  have rest: "\<forall>sp \<in> set rest. snd (fst sp) \<le> a \<or> b \<le> fst (fst sp)"
    using Cons.prems(3) by simp
  show ?case
  proof (cases "e \<le> a")
    case True
    have nb: "\<not> b \<le> i" using True c(2) assms(3) by simp
    have 1: "take (i - pos) (drop pos (take a tx)) = take (i - pos) (drop pos tx)"
      using take_drop_take[of pos i a tx] c True by simp
    have 2: "take (e - i) (drop i (take a tx)) = take (e - i) (drop i tx)"
      using take_drop_take[of i e a tx] c True by simp
    show ?thesis using Cons.IH[OF c(4) True rest] sp True nb 1 2 by simp
  next
    case False
    then have bi: "b \<le> i" using dis by simp
    have be: "b \<le> e" using bi c(2) by simp
    from spans_chain_right[OF c(4) be assms(3)]
    have f: "filter (\<lambda>sp. snd (fst sp) \<le> a) rest = []"
      "filter (\<lambda>sp. b \<le> fst (fst sp)) rest = rest" by simp_all
    have il: "i \<le> length tx" using c by simp
    have 3: "take (i - pos) (drop pos tx) =
         drop pos (take a tx) @ take (b - a) (drop a tx) @ take (i - b) (drop b tx)"
      using take_split3[of pos a b i tx] Cons.prems(2) assms(3) bi il by simp
    show ?thesis using sp False bi f 3 by simp
  qed
qed

lemma finditer_from_chain:
  "(\<forall>i e. i \<le> length tx \<and> match_at U r tx i = Some e \<longrightarrow> i < e \<and> e \<le> length tx) \<Longrightarrow>
   length cs = length (finditer_from U r tx i) \<Longrightarrow>
   spans_chain (length tx) i (zip (finditer_from U r tx i) cs)"
proof (induction U r tx i arbitrary: cs rule: finditer_from.induct)
  case (1 U r tx i)
  note A = "1.prems"(1)
  show ?case
  proof (cases "length tx < i")
    case True
    then show ?thesis by (simp add: finditer_from.simps[of U r tx i])
  next
    case le: False
    show ?thesis
    proof (cases "match_at U r tx i")
      case None
      show ?thesis
      proof (cases "i < length tx")
        case True
        have eq: "finditer_from U r tx i = finditer_from U r tx (Suc i)"
          using le None True by (simp add: finditer_from.simps[of U r tx i])
        have "spans_chain (length tx) (Suc i) (zip (finditer_from U r tx (Suc i)) cs)"
          using "1.IH"(1)[OF le None True A] "1.prems"(2) eq by simp
        then show ?thesis unfolding eq
          by (cases "zip (finditer_from U r tx (Suc i)) cs") auto
      next
        case False
        have "finditer_from U r tx i = []"
          using le None False by (simp add: finditer_from.simps[of U r tx i])
        then show ?thesis by simp
      qed
    next
      case (Some e)
      have "i \<le> length tx" using le by simp
      then have "i < e \<and> e \<le> length tx" using A Some by blast
      then have ie: "i < e" "e \<le> length tx" by simp_all
      have eq: "finditer_from U r tx i = (i, e) # finditer_from U r tx e"
        using le Some ie by (simp add: finditer_from.simps[of U r tx i])
      obtain c cs' where cs: "cs = c # cs'" using "1.prems"(2) eq by (cases cs) auto
      have "spans_chain (length tx) e (zip (finditer_from U r tx e) cs')"
        using "1.IH"(2)[OF le Some ie(1) A] "1.prems"(2) eq cs by simp
      then show ?thesis unfolding eq cs using ie by simp
    qed
  qed
qed

lemma mask_numbers_keeps_run:
  assumes sep: "\<not> is_word U 46" "\<not> is_word U 44"
    and run: "digit_run U tx a b" and beside: "beside_word U tx a b"
    and p: "0 < p"
  shows "\<exists>cs. length cs = length (finditer U NUM_RE tx) \<and>
     fst (mask_numbers U R tx p g) =
       mask_spans (take a tx) 0
         (filter (\<lambda>sp. snd (fst sp) \<le> a) (zip (finditer U NUM_RE tx) cs)) @
       take (b - a) (drop a tx) @
       mask_spans tx b (filter (\<lambda>sp. b \<le> fst (fst sp)) (zip (finditer U NUM_RE tx) cs))"
proof -
  from re_sub_from_mask_spans[OF NUM_RE_progresses, of U tx 0 R p g]
  obtain cs where cs: "length cs = length (finditer U NUM_RE tx)"
    "fst (mask_numbers U R tx p g) = mask_spans tx 0 (zip (finditer U NUM_RE tx) cs)"
    using p by (auto simp: mask_numbers_def re_sub_def finditer_def)
  have "i < e \<and> e \<le> length tx" if "i \<le> length tx" "match_at U NUM_RE tx i = Some e" for i e
    using NUM_RE_ends[OF match_at_Some[OF that(2)] that(1)] by simp
  then have A: "\<forall>i e. i \<le> length tx \<and> match_at U NUM_RE tx i = Some e \<longrightarrow>
      i < e \<and> e \<le> length tx" by blast
  have chain: "spans_chain (length tx) 0 (zip (finditer U NUM_RE tx) cs)"
    unfolding finditer_def
    by (rule finditer_from_chain[OF A]) (use cs(1) in \<open>simp add: finditer_def\<close>)
  have ab: "a < b" "b \<le> length tx" using run by (simp_all add: digit_run_def)
  have dis: "\<forall>sp \<in> set (zip (finditer U NUM_RE tx) cs). snd (fst sp) \<le> a \<or> b \<le> fst (fst sp)"
  proof
    fix sp assume sp: "sp \<in> set (zip (finditer U NUM_RE tx) cs)"
    obtain x y where xy: "sp = (x, y)" by (cases sp)
    then have x: "x \<in> set (finditer U NUM_RE tx)" using sp set_zip_leftD by fastforce
    from NUM_RE_span_facts[OF x] have f: "fst x \<le> length tx"
      "snd x \<in> set (ends U NUM_RE tx (fst x))" by simp_all
    show "snd (fst sp) \<le> a \<or> b \<le> fst (fst sp)"
      using NUM_RE_no_overlap[OF sep run beside f(2) f(1)] xy by simp
  qed
  have "mask_spans tx 0 (zip (finditer U NUM_RE tx) cs) =
       mask_spans (take a tx) 0
         (filter (\<lambda>sp. snd (fst sp) \<le> a) (zip (finditer U NUM_RE tx) cs)) @
       take (b - a) (drop a tx) @
       mask_spans tx b (filter (\<lambda>sp. b \<le> fst (fst sp)) (zip (finditer U NUM_RE tx) cs))"
    by (rule mask_spans_split[OF chain _ ab dis]) simp
  then show ?thesis using cs by (intro exI[of _ cs]) simp
qed

text \<open>
  Claim C6.  Every span that \<open>mask_numbers\<close> offers for masking has the shape of a number,
  and its left neighbour, if any, and its right neighbour, if any, are neither \<open>#\<close> nor a
  word character.  No such span overlaps a digit run that is beside a \<open>#\<close> or a word
  character (given that \<open>.\<close> and \<open>,\<close> are no word characters, as in Unicode).  The result of
  \<open>mask_numbers\<close> is the text with some of these spans replaced by \<open><NUM>\<close> and everything
  else copied (for \<open>p \<le> 0\<close> it is the text itself), so a digit run beside a \<open>#\<close> or a word
  character is never replaced: the result is the masking of the text before the run, the
  run itself, and the masking of the text after the run.  On the text \<open>#Person1#\<close> followed by a sentence with the number
  \<open>30\<close>, with \<open>p = 1\<close> and any well-formed generator, the result has \<open><NUM>\<close> for \<open>30\<close> and the
  \<open>1\<close> of the tag untouched.
\<close>

theorem mask_numbers_spans:
  "(\<forall>sp \<in> set (finditer U NUM_RE tx).
      fst sp < snd sp \<and> snd sp \<le> length tx \<and>
      number_shape U tx (fst sp) (snd sp) \<and>
      \<not> (0 < fst sp \<and> in_class U [Chr 35, ClsW] (tx ! (fst sp - 1))) \<and>
      \<not> (snd sp < length tx \<and> in_class U [Chr 35, ClsW] (tx ! snd sp))) \<and>
   (\<not> is_word U 46 \<and> \<not> is_word U 44 \<longrightarrow>
      (\<forall>a b. digit_run U tx a b \<and> beside_word U tx a b \<longrightarrow>
         (\<forall>sp \<in> set (finditer U NUM_RE tx). snd sp \<le> a \<or> b \<le> fst sp))) \<and>
   (p \<le> 0 \<longrightarrow> fst (mask_numbers U R tx p g) = tx) \<and>
   (0 < p \<longrightarrow>
      (\<exists>cs. length cs = length (finditer U NUM_RE tx) \<and>
            fst (mask_numbers U R tx p g) = mask_spans tx 0 (zip (finditer U NUM_RE tx) cs))) \<and>
   (\<not> is_word U 46 \<and> \<not> is_word U 44 \<and> 0 < p \<longrightarrow>
      (\<forall>a b. digit_run U tx a b \<and> beside_word U tx a b \<longrightarrow>
         (\<exists>cs. length cs = length (finditer U NUM_RE tx) \<and>
            fst (mask_numbers U R tx p g) =
              mask_spans (take a tx) 0
                (filter (\<lambda>sp. snd (fst sp) \<le> a) (zip (finditer U NUM_RE tx) cs)) @
              take (b - a) (drop a tx) @
              mask_spans tx b
                (filter (\<lambda>sp. b \<le> fst (fst sp)) (zip (finditer U NUM_RE tx) cs))))) \<and>
   (rng_ok R \<longrightarrow> fst (mask_numbers ucd_sample R person_text 1 g) = person_masked)"
proof -
  have a: "\<forall>sp \<in> set (finditer U NUM_RE tx).
      fst sp < snd sp \<and> snd sp \<le> length tx \<and>
      number_shape U tx (fst sp) (snd sp) \<and>
      \<not> (0 < fst sp \<and> in_class U [Chr 35, ClsW] (tx ! (fst sp - 1))) \<and>
      \<not> (snd sp < length tx \<and> in_class U [Chr 35, ClsW] (tx ! snd sp))"
  proof
    fix sp assume sp: "sp \<in> set (finditer U NUM_RE tx)"
    from NUM_RE_span_facts[OF sp] have f: "fst sp \<le> length tx"
      "snd sp \<in> set (ends U NUM_RE tx (fst sp))" by simp_all
    show "fst sp < snd sp \<and> snd sp \<le> length tx \<and>
      number_shape U tx (fst sp) (snd sp) \<and>
      \<not> (0 < fst sp \<and> in_class U [Chr 35, ClsW] (tx ! (fst sp - 1))) \<and>
      \<not> (snd sp < length tx \<and> in_class U [Chr 35, ClsW] (tx ! snd sp))"
      using NUM_RE_span[OF sp] NUM_RE_shape[OF f(2) f(1)] by simp
  qed
  have n: "\<not> is_word U 46 \<and> \<not> is_word U 44 \<longrightarrow>
      (\<forall>a b. digit_run U tx a b \<and> beside_word U tx a b \<longrightarrow>
         (\<forall>sp \<in> set (finditer U NUM_RE tx). snd sp \<le> a \<or> b \<le> fst sp))"
  proof (intro impI allI ballI)
    fix a b sp
    assume w: "\<not> is_word U 46 \<and> \<not> is_word U 44"
      and r: "digit_run U tx a b \<and> beside_word U tx a b"
      and sp: "sp \<in> set (finditer U NUM_RE tx)"
    from NUM_RE_span_facts[OF sp] have f: "fst sp \<le> length tx"
      "snd sp \<in> set (ends U NUM_RE tx (fst sp))" by simp_all
    show "snd sp \<le> a \<or> b \<le> fst sp"
      using NUM_RE_no_overlap[OF _ _ _ _ f(2) f(1), of a b] w r by blast
  qed
  have b: "p \<le> 0 \<longrightarrow> fst (mask_numbers U R tx p g) = tx" by (simp add: mask_numbers_def)
  have c: "0 < p \<longrightarrow>
      (\<exists>cs. length cs = length (finditer U NUM_RE tx) \<and>
            fst (mask_numbers U R tx p g) = mask_spans tx 0 (zip (finditer U NUM_RE tx) cs))"
    using re_sub_from_mask_spans[OF NUM_RE_progresses, of U tx 0 R p g]
    by (simp add: mask_numbers_def re_sub_def finditer_def)
  have k: "\<not> is_word U 46 \<and> \<not> is_word U 44 \<and> 0 < p \<longrightarrow>
      (\<forall>a b. digit_run U tx a b \<and> beside_word U tx a b \<longrightarrow>
         (\<exists>cs. length cs = length (finditer U NUM_RE tx) \<and>
            fst (mask_numbers U R tx p g) =
              mask_spans (take a tx) 0
                (filter (\<lambda>sp. snd (fst sp) \<le> a) (zip (finditer U NUM_RE tx) cs)) @
              take (b - a) (drop a tx) @
              mask_spans tx b
                (filter (\<lambda>sp. b \<le> fst (fst sp)) (zip (finditer U NUM_RE tx) cs))))"
    using mask_numbers_keeps_run[of U tx _ _ p R g] by blast
  have d: "rng_ok R \<longrightarrow> fst (mask_numbers ucd_sample R person_text 1 g) = person_masked"
    by (simp add: mask_person_text)
  show ?thesis using a n b c k d by (intro conjI)
qed

text \<open>
  On the example text the digit \<open>1\<close> of the tag is a digit run beside the word character
  \<open>n\<close> and the \<open>#\<close>; the only span offered is that of \<open>30\<close>.
\<close>

theorem mask_numbers_spans_witness:
  "finditer ucd_sample NUM_RE person_text = [(16, 18)] \<and>
   person_text ! 7 = 49 \<and> (18 \<le> (7::nat) \<or> (8::nat) \<le> 16) \<and>
   (\<exists>post. fst (mask_numbers ucd_sample counter_rng person_text 1 0) =
      take 7 person_text @ [49] @ post) \<and>
   fst (mask_numbers ucd_sample counter_rng person_text 1 0) = person_masked"
proof -
  note t = mask_numbers_spans[of ucd_sample person_text 1 counter_rng 0]
  have spans: "finditer ucd_sample NUM_RE person_text = [(16, 18)]"
    by (simp add: NUM_RE_def person_text_def rx_eval)
  have w: "\<not> is_word ucd_sample 46 \<and> \<not> is_word ucd_sample 44"
    by (simp add: is_word_def uc_alnum_def ucd_sample_def)
  have k7: "k = 7" if "7 \<le> k \<and> k < 8" for k :: nat using that by arith
  have run: "digit_run ucd_sample person_text 7 8"
    unfolding digit_run_def
  proof (intro conjI allI impI)
    fix k :: nat assume "7 \<le> k \<and> k < 8"
    then have "k = 7" by (rule k7)
    then show "uc_decimal ucd_sample (person_text ! k)"
      by (simp add: person_text_def ucd_sample_def)
  qed (simp_all add: person_text_def ucd_sample_def)
  have beside: "beside_word ucd_sample person_text 7 8"
    by (simp add: beside_word_def person_text_def in_class_def)
  have "\<forall>sp \<in> set (finditer ucd_sample NUM_RE person_text). snd sp \<le> 7 \<or> 8 \<le> fst sp"
    using t w run beside by blast
  then have no: "18 \<le> (7::nat) \<or> (8::nat) \<le> 16" by (simp add: spans)
  have m: "fst (mask_numbers ucd_sample counter_rng person_text 1 0) = person_masked"
    using t counter_rng_ok by blast
  have c: "person_text ! 7 = 49" by (simp add: person_text_def)
  have p1: "(0::real) < 1" by simp
  have "\<exists>cs. length cs = length (finditer ucd_sample NUM_RE person_text) \<and>
      fst (mask_numbers ucd_sample counter_rng person_text 1 0) =
        mask_spans (take 7 person_text) 0
          (filter (\<lambda>sp. snd (fst sp) \<le> 7) (zip (finditer ucd_sample NUM_RE person_text) cs)) @
        take (8 - 7) (drop 7 person_text) @
        mask_spans person_text 8
          (filter (\<lambda>sp. 8 \<le> fst (fst sp)) (zip (finditer ucd_sample NUM_RE person_text) cs))"
    using t w p1 run beside by blast
  then obtain cs where cs: "length cs = length (finditer ucd_sample NUM_RE person_text)"
    "fst (mask_numbers ucd_sample counter_rng person_text 1 0) =
        mask_spans (take 7 person_text) 0
          (filter (\<lambda>sp. snd (fst sp) \<le> 7) (zip (finditer ucd_sample NUM_RE person_text) cs)) @
        take (8 - 7) (drop 7 person_text) @
        mask_spans person_text 8
          (filter (\<lambda>sp. 8 \<le> fst (fst sp)) (zip (finditer ucd_sample NUM_RE person_text) cs))"
    by blast
  obtain ch where ch: "cs = [ch]" using cs(1) spans by (cases cs) auto
  have r7: "take (8 - 7) (drop 7 person_text) = [49]" by (simp add: person_text_def)
  have kept: "\<exists>post. fst (mask_numbers ucd_sample counter_rng person_text 1 0) =
      take 7 person_text @ [49] @ post"
    unfolding cs(2) r7 by (simp add: ch spans)
  show ?thesis using spans c no kept m by (intro conjI)
qed

subsection \<open>Filler removal on text without standalone fillers\<close>

text \<open>
  Claim C5, at a failing input.  The word of two syllables whose first syllable is the
  filler U+C74C loses that syllable: with \<open>p = 1\<close> every trial succeeds, the pattern of the
  filler matches at the start of the word, and only the second syllable is left.
\<close>

theorem drop_fillers_word_prefix:
  "fst (drop_fillers ucd_sample counter_rng food_word 1 0) = food_word_rest"
  by (simp add: drop_fillers_def FILLERS_def counter_rng_def filler_re_def SPACES_RE_def
      strip_def ascii_def food_word_def food_word_rest_def rx_eval)

text \<open>
  Claim C7 as stated fails for \<open>drop_fillers\<close>.  The two-line text has no match of any
  filler pattern, and with \<open>p = 1/2\<close> the result is the two lines joined by a space.
\<close>

theorem drop_fillers_joins_lines:
  "filler_matches ucd_sample two_lines = [] \<and>
   fst (drop_fillers ucd_sample counter_rng two_lines (1/2) 0) = one_line \<and>
   one_line \<noteq> two_lines"
  by (simp add: filler_matches_def drop_fillers_def FILLERS_def counter_rng_def filler_re_def
      SPACES_RE_def strip_def ascii_def two_lines_def one_line_def rx_eval)

lemma replace_loop_no_key:
  assumes "\<forall>key \<in> set keys. \<not> contains out key"
  shows "fst (replace_loop R p keys out g) = Inr out"
  using assms
proof (induction keys arbitrary: g)
  case Nil
  then show ?case by simp
next
  case (Cons key keys)
  obtain x g1 where x: "rng_random R g = (x, g1)" by (cases "rng_random R g")
  have "\<not> contains out key" using Cons.prems by simp
  then have "replace_loop R p (key # keys) out g = replace_loop R p keys out g1"
    using x by simp
  then show ?case using Cons.IH[of g1] Cons.prems by simp
qed

lemma jitter_loop_plain:
  assumes "\<forall>c \<in> set tx. c \<noteq> 63 \<and> c \<noteq> 33 \<and> c \<noteq> 44"
  shows "jitter_loop R p tx acc g = (Inr (acc @ map (\<lambda>c. [c]) tx), g)"
  using assms
proof (induction tx arbitrary: acc)
  case Nil
  then show ?case by simp
next
  case (Cons ch rest)
  have "ch \<noteq> 63" "ch \<noteq> 33" "ch \<noteq> 44" using Cons.prems by simp_all
  then have "jitter_loop R p (ch # rest) acc g = jitter_loop R p rest (acc @ [[ch]]) g"
    by simp
  then show ?case using Cons.IH[of "acc @ [[ch]]"] Cons.prems by simp
qed

lemma concat_singletons: "concat (map (\<lambda>c. [c]) xs) = xs"
  by (induction xs) simp_all

lemma re_sub_str_no_match:
  assumes "finditer U r tx = []"
  shows "re_sub_str U r s tx = tx"
  using re_sub_from_no_match[of U r tx 0 "\<lambda>m g. (s, g)" "()"] assms
  by (simp add: re_sub_str_def re_sub_def finditer_def)

lemma drop_loop_no_filler:
  assumes "\<forall>f \<in> set fs. finditer U (filler_re f) out = []"
  shows "fst (drop_loop U R p fs out g) = out"
  using assms
proof (induction fs arbitrary: g)
  case Nil
  then show ?case by simp
next
  case (Cons f fs)
  obtain x g1 where x: "rng_random R g = (x, g1)" by (cases "rng_random R g")
  have "re_sub_str U (filler_re f) [] out = out"
    using Cons.prems by (intro re_sub_str_no_match) simp
  then have "drop_loop U R p (f # fs) out g = drop_loop U R p fs out g1"
    using x by simp
  then show ?case using Cons.IH[of g1] Cons.prems by simp
qed

lemma filler_matches_none:
  "filler_matches U tx = [] \<longleftrightarrow> (\<forall>f \<in> set FILLERS. finditer U (filler_re f) tx = [])"
  by (simp add: filler_matches_def)


subsection \<open>Transforms with nothing to act on\<close>

lemma in_class_space: "in_class U [ClsS] c = uc_space U c"
  by (simp add: in_class_def)

lemma ws_normal_sub_from:
  assumes "ws_normal U tx" and "i \<le> length tx"
  shows "re_sub_from U SPACES_RE (\<lambda>m g. ([32], g)) tx i () = (drop i tx, ())"
  using assms(2)
proof (induction "length tx - i" arbitrary: i rule: less_induct)
  case less
  note rs = re_sub_from.simps[of U SPACES_RE "\<lambda>m g. ([32], g)" tx i "()"]
  have le: "\<not> length tx < i" using less.prems by simp
  show ?case
  proof (cases "i < length tx")
    case False
    have "drop i tx = []" using False by simp
    then have "match_at U SPACES_RE tx i = None"
      by (simp add: match_at_def SPACES_RE_def run_len_def)
    then have "re_sub_from U SPACES_RE (\<lambda>m g. ([32], g)) tx i () = ([], ())"
      using le False by (simp add: rs)
    then show ?thesis using \<open>drop i tx = []\<close> by simp
  next
    case True
    have d: "drop i tx = tx ! i # drop (Suc i) tx" using True by (simp add: Cons_nth_drop_Suc)
    have "length tx - Suc i < length tx - i" using True by simp
    from less.hyps[OF this] True
    have ih: "re_sub_from U SPACES_RE (\<lambda>m g. ([32], g)) tx (Suc i) () = (drop (Suc i) tx, ())"
      by simp
    show ?thesis
    proof (cases "uc_space U (tx ! i)")
      case False
      have "run_len U [ClsS] tx i = 0"
        using False by (simp add: run_len_def d in_class_space)
      then have "match_at U SPACES_RE tx i = None"
        by (simp add: match_at_def SPACES_RE_def)
      then show ?thesis using le True ih d by (simp add: rs)
    next
      case sp: True
      from assms(1) True sp have n: "tx ! i = 32" "Suc i < length tx" "\<not> uc_space U (tx ! Suc i)"
        unfolding ws_normal_def by blast+
      have d2: "drop (Suc i) tx = tx ! Suc i # drop (Suc (Suc i)) tx"
        using n(2) by (simp add: Cons_nth_drop_Suc)
      have "run_len U [ClsS] tx i = Suc 0"
        using sp n(3) by (simp add: run_len_def d d2 in_class_space)
      then have m: "match_at U SPACES_RE tx i = Some (Suc i)"
        by (simp add: match_at_def SPACES_RE_def)
      show ?thesis using le True ih m n(1) by (simp add: rs d)
    qed
  qed
qed

lemma ws_normal_strip:
  assumes "ws_normal U tx"
  shows "strip U tx = tx"
proof (cases tx rule: rev_cases)
  case Nil
  then show ?thesis by (simp add: strip_def)
next
  case (snoc ys y)
  have first: "\<not> uc_space U (tx ! 0)"
  proof
    assume "uc_space U (tx ! 0)"
    moreover have "0 < length tx" using snoc by simp
    ultimately have "(0::nat) < 0" using assms unfolding ws_normal_def by blast
    then show False by simp
  qed
  have "\<not> uc_space U (tx ! length ys)"
  proof
    assume "uc_space U (tx ! length ys)"
    moreover have "length ys < length tx" using snoc by simp
    ultimately have "Suc (length ys) < length tx" using assms unfolding ws_normal_def by blast
    then show False using snoc by simp
  qed
  then have last: "\<not> uc_space U y" using snoc by simp
  have "dropWhile (uc_space U) tx = tx"
    using first by (cases tx) simp_all
  moreover have "dropWhile (uc_space U) (rev tx) = rev tx" using last snoc by simp
  ultimately show ?thesis by (simp add: strip_def)
qed

lemma ws_normal_fixed:
  assumes "ws_normal U tx"
  shows "strip U (re_sub_str U SPACES_RE (ascii '' '') tx) = tx"
proof -
  have "re_sub_str U SPACES_RE (ascii '' '') tx = tx"
    using ws_normal_sub_from[OF assms, of 0] by (simp add: re_sub_str_def re_sub_def ascii_def)
  then show ?thesis using ws_normal_strip[OF assms] by simp
qed

text \<open>
  Claim C7, amended.  \<open>mask_numbers\<close> and \<open>drop_fillers\<close> have no error branch, and with a
  well-formed generator \<open>replace_phrases\<close> and \<open>punct_jitter\<close> return a string for every text
  and every \<open>p\<close>.  On a text that contains no lexicon key \<open>replace_phrases\<close> returns the
  text; on a text without a numeric match \<open>mask_numbers\<close> returns the text; on a text
  without \<open>?\<close>, \<open>!\<close> and \<open>,\<close> \<open>punct_jitter\<close> returns the text.  On a text where no filler
  pattern matches, \<open>drop_fillers\<close> with \<open>p > 0\<close> returns the text with every run of
  whitespace replaced by one space and the ends stripped; this is the text itself when
  the text is whitespace-normal.
\<close>

theorem transforms_idle:
  "(rng_ok R \<longrightarrow>
      (\<exists>out g'. replace_phrases R tx p g = (Inr out, g')) \<and>
      (\<exists>out g'. punct_jitter R tx p g = (Inr out, g'))) \<and>
   ((\<forall>key \<in> set (map fst PHRASE_SYNONYMS). \<not> contains tx key) \<longrightarrow>
      fst (replace_phrases R tx p g) = Inr tx) \<and>
   (finditer U NUM_RE tx = [] \<longrightarrow> fst (mask_numbers U R tx p g) = tx) \<and>
   ((\<forall>c \<in> set tx. c \<noteq> 63 \<and> c \<noteq> 33 \<and> c \<noteq> 44) \<longrightarrow>
      fst (punct_jitter R tx p g) = Inr tx) \<and>
   (filler_matches U tx = [] \<longrightarrow>
      fst (drop_fillers U R tx p g) =
        (if p \<le> 0 then tx else strip U (re_sub_str U SPACES_RE (ascii '' '') tx))) \<and>
   (filler_matches U tx = [] \<and> ws_normal U tx \<longrightarrow> fst (drop_fillers U R tx p g) = tx)"
proof -
  have total: "rng_ok R \<longrightarrow>
      (\<exists>out g'. replace_phrases R tx p g = (Inr out, g')) \<and>
      (\<exists>out g'. punct_jitter R tx p g = (Inr out, g'))"
    using replace_phrases_total[of R tx p g] punct_jitter_total[of R tx p g] by blast
  have rp: "fst (replace_phrases R tx p g) = Inr tx"
    if "\<forall>key \<in> set (map fst PHRASE_SYNONYMS). \<not> contains tx key"
  proof -
    have "\<forall>key \<in> set keys_sorted. \<not> contains tx key"
      using that unfolding set_keys_sorted .
    from replace_loop_no_key[OF this, of R p g] show ?thesis
      by (simp add: replace_phrases_def)
  qed
  have mn: "fst (mask_numbers U R tx p g) = tx" if "finditer U NUM_RE tx = []"
    using re_sub_from_no_match[of U NUM_RE tx 0 "mask_repl R p" g] that
    by (simp add: mask_numbers_def re_sub_def finditer_def)
  have pj: "fst (punct_jitter R tx p g) = Inr tx"
    if "\<forall>c \<in> set tx. c \<noteq> 63 \<and> c \<noteq> 33 \<and> c \<noteq> 44"
    using jitter_loop_plain[OF that, of R p "[]" g]
    by (simp add: punct_jitter_def concat_singletons)
  have df: "fst (drop_fillers U R tx p g) =
        (if p \<le> 0 then tx else strip U (re_sub_str U SPACES_RE (ascii '' '') tx))"
    if "filler_matches U tx = []"
  proof -
    have "\<forall>f \<in> set FILLERS. finditer U (filler_re f) tx = []"
      using that by (simp only: filler_matches_none)
    from drop_loop_no_filler[OF this, of R p g]
    obtain g' where "drop_loop U R p FILLERS tx g = (tx, g')"
      by (cases "drop_loop U R p FILLERS tx g") simp
    then show ?thesis by (simp add: drop_fillers_def)
  qed
  have dfn: "fst (drop_fillers U R tx p g) = tx" if "filler_matches U tx = [] \<and> ws_normal U tx"
    using df that ws_normal_fixed[of U tx] by simp
  show ?thesis using total rp mn pj df dfn by (intro conjI impI) blast+
qed

theorem transforms_idle_witness:
  "replace_phrases counter_rng hi_text (1/2) 0 = (Inr hi_text, 14) \<and>
   fst (mask_numbers ucd_sample counter_rng hi_text (1/2) 0) = hi_text \<and>
   fst (punct_jitter counter_rng hi_text (1/2) 0) = Inr hi_text \<and>
   fst (drop_fillers ucd_sample counter_rng hi_text (1/2) 0) = hi_text"
proof -
  have 1: "\<forall>key \<in> set (map fst PHRASE_SYNONYMS). \<not> contains hi_text key"
    by (simp add: PHRASE_SYNONYMS_def hi_text_def)
  have 2: "finditer ucd_sample NUM_RE hi_text = []"
    by (simp add: NUM_RE_def hi_text_def rx_eval)
  have 3: "\<forall>c \<in> set hi_text. c \<noteq> 63 \<and> c \<noteq> 33 \<and> c \<noteq> 44" by (simp add: hi_text_def)
  have 4: "filler_matches ucd_sample hi_text = []"
    by (simp add: filler_matches_def FILLERS_def filler_re_def hi_text_def rx_eval)
  have 5: "ws_normal ucd_sample hi_text"
    by (simp add: ws_normal_def hi_text_def ucd_sample_def less_Suc_eq)
  have 6: "replace_phrases counter_rng hi_text (1/2) 0 = (Inr hi_text, 14)"
    by (simp add: replace_phrases_def keys_sorted_eq hi_text_def counter_rng_def)
  note t = transforms_idle[of counter_rng hi_text "1/2" 0 ucd_sample]
  have a: "fst (mask_numbers ucd_sample counter_rng hi_text (1/2) 0) = hi_text"
    using t 2 by blast
  have b: "fst (punct_jitter counter_rng hi_text (1/2) 0) = Inr hi_text"
    using t 3 by blast
  have c: "fst (drop_fillers ucd_sample counter_rng hi_text (1/2) 0) = hi_text"
    using t 4 5 by blast
  show ?thesis using 6 a b c by (intro conjI)
qed


end
